theory Spec2Isabelle
  imports Main
begin

section \<open>Grids, loops and the random source\<close>

text \<open>
  Both programs keep the field as a list of columns, \<^verbatim>\<open>grid[x][y]\<close>. Coordinates are
  Python integers; every access of the sources happens behind a bounds check (or with
  a loop index or the clamped cursor), so the negative indices of Python never occur.
\<close>

definition cell_at :: "'a list list \<Rightarrow> int \<Rightarrow> int \<Rightarrow> 'a" where
  "cell_at g x y = g ! nat x ! nat y"

definition update_at :: "'a list list \<Rightarrow> int \<Rightarrow> int \<Rightarrow> ('a \<Rightarrow> 'a) \<Rightarrow> 'a list list" where
  "update_at g x y f = g[nat x := (g ! nat x)[nat y := f (g ! nat x ! nat y)]]"

definition inb :: "int \<Rightarrow> int \<Rightarrow> int \<Rightarrow> int \<Rightarrow> bool" where
  "inb w h x y \<longleftrightarrow> 0 \<le> x \<and> x < w \<and> 0 \<le> y \<and> y < h"

definition wf_grid :: "int \<Rightarrow> int \<Rightarrow> 'a list list \<Rightarrow> bool" where
  "wf_grid w h g \<longleftrightarrow> length g = nat w \<and> list_all (\<lambda>col. length col = nat h) g"

text \<open>\<^verbatim>\<open>[[c for _ in range(h)] for _ in range(w)]\<close>\<close>

definition new_grid :: "int \<Rightarrow> int \<Rightarrow> 'a \<Rightarrow> 'a list list" where
  "new_grid w h c = replicate (nat w) (replicate (nat h) c)"

text \<open>\<^verbatim>\<open>range(n)\<close>\<close>

definition py_range :: "int \<Rightarrow> int list" where
  "py_range n = map int [0..<nat n]"

text \<open>
  A \<^verbatim>\<open>for\<close> loop whose body may fail to return: the state is threaded through the
  iterations, and the loop stops at the first iteration that does not return.
\<close>

fun for_each :: "'a list \<Rightarrow> ('a \<Rightarrow> 's \<Rightarrow> 's option) \<Rightarrow> 's \<Rightarrow> 's option" where
  "for_each [] f s = Some s"
| "for_each (x # xs) f s = (case f x s of None \<Rightarrow> None | Some s' \<Rightarrow> for_each xs f s')"

text \<open>The offsets \<^verbatim>\<open>for dx in range(-1,2): for dy in range(-1,2)\<close>, in loop order.\<close>

definition offsets :: "(int \<times> int) list" where
  "offsets = List.product [-1, 0, 1] [-1, 0, 1]"

section \<open>nyankosweeper.py\<close>

text \<open>
  The glyphs of \<^verbatim>\<open>Config.MARKS\<close> are wide Unicode characters (a full-width number sign, a
  flag, a full-width question mark); they are named here, in the order of the list.
\<close>

datatype glyph = HashGlyph | FlagGlyph | QuestionGlyph

definition MARKS :: "glyph list" where
  "MARKS = [HashGlyph, FlagGlyph, QuestionGlyph]"

definition MAX_MINES :: int where
  "MAX_MINES = 300"

definition XSIZE :: int where
  "XSIZE = 40"

definition BOARD_HEIGHT :: int where
  "BOARD_HEIGHT = 22"

record Cell =
  mine :: bool
  revealed :: bool
  mark :: nat
  adjacent :: nat

definition new_Cell :: Cell where
  "new_Cell = \<lparr>mine = False, revealed = False, mark = 0, adjacent = 0\<rparr>"

record Board =
  width :: int
  height :: int
  mines :: int
  grid :: "Cell list list"

text \<open>
  \<^verbatim>\<open>Board.place_mines\<close>. The two \<^verbatim>\<open>random.randint\<close> calls of one iteration are one
  element of the list of draws; the loop that has used up the draws it was given has
  not returned.
\<close>

fun place_mines_loop :: "Board \<Rightarrow> int \<Rightarrow> (int \<times> int) list \<Rightarrow> (Board \<times> (int \<times> int) list) option" where
  "place_mines_loop b placed [] = (if placed < mines b then None else Some (b, []))"
| "place_mines_loop b placed ((x, y) # ds) =
     (if placed < mines b then
        (if \<not> mine (cell_at (grid b) x y)
         then place_mines_loop (b\<lparr>grid := update_at (grid b) x y (\<lambda>c. c\<lparr>mine := True\<rparr>)\<rparr>) (placed + 1) ds
         else place_mines_loop b placed ds)
      else Some (b, (x, y) # ds))"

definition Board_place_mines :: "Board \<Rightarrow> (int \<times> int) list \<Rightarrow> (Board \<times> (int \<times> int) list) option" where
  "Board_place_mines b ds = place_mines_loop b 0 ds"

text \<open>The generator expression of \<^verbatim>\<open>calculate_adjacents\<close>: the mines around \<open>(x, y)\<close>.\<close>

definition adjacent_mines :: "Board \<Rightarrow> int \<Rightarrow> int \<Rightarrow> nat" where
  "adjacent_mines b x y =
     sum_list (map (\<lambda>(dx, dy). if mine (cell_at (grid b) (x + dx) (y + dy)) then 1 else 0)
       (filter (\<lambda>(dx, dy). (dx \<noteq> 0 \<or> dy \<noteq> 0) \<and> 0 \<le> x + dx \<and> x + dx < width b
                  \<and> 0 \<le> y + dy \<and> y + dy < height b)
          (List.product [-1, 0, 1] [-1, 0, 1])))"

definition Board_calculate_adjacents :: "Board \<Rightarrow> Board" where
  "Board_calculate_adjacents b0 =
     fold (\<lambda>x. fold (\<lambda>y b.
            if mine (cell_at (grid b) x y) then b
            else b\<lparr>grid := update_at (grid b) x y (\<lambda>c. c\<lparr>adjacent := adjacent_mines b x y\<rparr>)\<rparr>)
          (py_range (height b0)))
       (py_range (width b0)) b0"

text \<open>\<^verbatim>\<open>Board.__init__\<close>, with the sizes of \<^verbatim>\<open>Config\<close> as parameters.\<close>

definition new_Board :: "int \<Rightarrow> int \<Rightarrow> int \<Rightarrow> (int \<times> int) list \<Rightarrow> (Board \<times> (int \<times> int) list) option" where
  "new_Board w h n ds =
     (case Board_place_mines \<lparr>width = w, height = h, mines = n, grid = new_grid w h new_Cell\<rparr> ds of
        None \<Rightarrow> None
      | Some (b, ds') \<Rightarrow> Some (Board_calculate_adjacents b, ds'))"

text \<open>
  \<^verbatim>\<open>Board.reveal\<close>. The first argument is the number of nested calls the interpreter
  still allows; a call chain deeper than that does not return a board.
\<close>

fun Board_reveal :: "nat \<Rightarrow> Board \<Rightarrow> int \<Rightarrow> int \<Rightarrow> Board option" where
  "Board_reveal 0 b x y = None"
| "Board_reveal (Suc n) b x y =
     (let cell = cell_at (grid b) x y in
      if revealed cell \<or> MARKS ! mark cell \<noteq> HashGlyph then Some b
      else
        (let b1 = b\<lparr>grid := update_at (grid b) x y (\<lambda>c. c\<lparr>revealed := True\<rparr>)\<rparr> in
         if adjacent cell = 0 \<and> \<not> mine cell then
           for_each [-1, 0, 1] (\<lambda>dx.
             for_each [-1, 0, 1] (\<lambda>dy b'.
               (let nx = x + dx; ny = y + dy in
                if 0 \<le> nx \<and> nx < width b' \<and> 0 \<le> ny \<and> ny < height b'
                then Board_reveal n b' nx ny else Some b'))) b1
         else Some b1))"

definition Board_toggle_mark :: "Board \<Rightarrow> int \<Rightarrow> int \<Rightarrow> Board" where
  "Board_toggle_mark b x y =
     (let cell = cell_at (grid b) x y in
      if \<not> revealed cell
      then b\<lparr>grid := update_at (grid b) x y (\<lambda>c. c\<lparr>mark := (mark c + 1) mod length MARKS\<rparr>)\<rparr>
      else b)"

definition Board_all_clear :: "Board \<Rightarrow> bool" where
  "Board_all_clear b = list_all (\<lambda>cell. revealed cell \<or> mine cell) (concat (grid b))"

text \<open>The invariant of a board: its grid has the declared shape and every mark is an index of \<^verbatim>\<open>MARKS\<close>.\<close>

definition wf_Board :: "Board \<Rightarrow> bool" where
  "wf_Board b \<longleftrightarrow> wf_grid (width b) (height b) (grid b)
     \<and> list_all (\<lambda>cell. mark cell < length MARKS) (concat (grid b))"


text \<open>What ends a run of either script other than a normal return.\<close>

datatype exn = SystemExit int | ValueError | RecursionError

text \<open>
  CPython's default recursion limit is 1000 frames, and fewer than ten frames lie below
  the first call of the recursive reveal in either program.
\<close>

definition depth_budget :: nat where
  "depth_budget = 990"

datatype direction = LEFT | RIGHT | UP | DOWN

fun DIRECTIONS :: "direction \<Rightarrow> int \<times> int" where
  "DIRECTIONS LEFT = (-1, 0)"
| "DIRECTIONS RIGHT = (1, 0)"
| "DIRECTIONS UP = (0, -1)"
| "DIRECTIONS DOWN = (0, 1)"

definition KEY_BINDINGS :: "string \<Rightarrow> direction option" where
  "KEY_BINDINGS = map_of
     [(''4'', LEFT), (''h'', LEFT), (''KEY_LEFT'', LEFT),
      (''6'', RIGHT), (''l'', RIGHT), (''KEY_RIGHT'', RIGHT),
      (''8'', UP), (''k'', UP), (''KEY_UP'', UP),
      (''2'', DOWN), (''j'', DOWN), (''KEY_DOWN'', DOWN)]"

record GameState =
  board :: Board
  cursor_x :: int
  cursor_y :: int
  game_over :: bool

text \<open>
  A \<^verbatim>\<open>Game\<close>: its \<^verbatim>\<open>board\<close> attribute is the very object held by its state, so the
  state alone carries it; \<open>status_row\<close> lists what \<^verbatim>\<open>show_message\<close> has written, oldest
  first. Drawing the cells reads the model and changes nothing in it.
\<close>

record Game =
  state :: GameState
  status_row :: "string list"

definition new_GameState :: "Board \<Rightarrow> GameState" where
  "new_GameState b = \<lparr>board = b, cursor_x = width b div 2, cursor_y = height b div 2, game_over = False\<rparr>"

definition new_Game :: "int \<Rightarrow> int \<Rightarrow> int \<Rightarrow> (int \<times> int) list \<Rightarrow> (Game \<times> (int \<times> int) list) option" where
  "new_Game w h n ds =
     (case new_Board w h n ds of
        None \<Rightarrow> None
      | Some (b, ds') \<Rightarrow> Some (\<lparr>state = new_GameState b, status_row = []\<rparr>, ds'))"

definition Game_reveal_all :: "bool \<Rightarrow> Board \<Rightarrow> Board" where
  "Game_reveal_all show_mines b0 =
     fold (\<lambda>x. fold (\<lambda>y b.
            (let cell = cell_at (grid b) x y in
             if show_mines then
               (if mine cell then
                  (if mark cell \<noteq> 1 then b\<lparr>grid := update_at (grid b) x y (\<lambda>c. c\<lparr>revealed := True\<rparr>)\<rparr> else b)
                else b\<lparr>grid := update_at (grid b) x y (\<lambda>c. c\<lparr>revealed := True\<rparr>)\<rparr>)
             else b\<lparr>grid := update_at (grid b) x y (\<lambda>c. c\<lparr>revealed := True\<rparr>)\<rparr>))
          (py_range (height b0)))
       (py_range (width b0)) b0"

text \<open>\<^verbatim>\<open>Game.handle_win\<close>; the key it waits for is the head of the keys still to come.\<close>

definition Game_handle_win :: "Game \<Rightarrow> string list \<Rightarrow> (Game \<times> string list) option" where
  "Game_handle_win g keys =
     (let b0 = board (state g);
          b1 = fold (\<lambda>x. fold (\<lambda>y b.
                 (if mine (cell_at (grid b) x y)
                  then b\<lparr>grid := update_at (grid b) x y (\<lambda>c. c\<lparr>mark := 1, revealed := False\<rparr>)\<rparr>
                  else b\<lparr>grid := update_at (grid b) x y (\<lambda>c. c\<lparr>revealed := True\<rparr>)\<rparr>))
                (py_range (height b0))) (py_range (width b0)) b0;
          g1 = g\<lparr>state := (state g)\<lparr>board := b1\<rparr>, status_row := status_row g @ [''You win. hit key'']\<rparr>
      in case keys of [] \<Rightarrow> None | k # ks \<Rightarrow> Some (g1, ks))"

definition Game_handle_reveal :: "Game \<Rightarrow> string list \<Rightarrow> (exn + Game \<times> string list) option" where
  "Game_handle_reveal g keys =
     (let x = cursor_x (state g); y = cursor_y (state g);
          cell = cell_at (grid (board (state g))) x y in
      if mine cell then
        (let g1 = g\<lparr>state := (state g)\<lparr>game_over := True,
                                        board := Game_reveal_all True (board (state g))\<rparr>,
                    status_row := status_row g @ [''You lose. hit key'']\<rparr>
         in case keys of [] \<Rightarrow> None | k # ks \<Rightarrow> Some (Inr (g1, ks)))
      else
        (case Board_reveal depth_budget (board (state g)) x y of
           None \<Rightarrow> Some (Inl RecursionError)
         | Some b' \<Rightarrow> Some (Inr (g\<lparr>state := (state g)\<lparr>board := b'\<rparr>\<rparr>, keys))))"

text \<open>\<^verbatim>\<open>Game.handle_key\<close>: the flag it returns, the game, and the keys still to come.\<close>

definition Game_handle_key :: "Game \<Rightarrow> string \<Rightarrow> string list \<Rightarrow> (exn + bool \<times> Game \<times> string list) option" where
  "Game_handle_key g key keys =
     (case KEY_BINDINGS key of
        Some action \<Rightarrow>
          (let (dx, dy) = DIRECTIONS action;
               b = board (state g);
               cx = max 0 (min (width b - 1) (cursor_x (state g) + dx));
               cy = max 0 (min (height b - 1) (cursor_y (state g) + dy))
           in Some (Inr (True, g\<lparr>state := (state g)\<lparr>cursor_x := cx, cursor_y := cy\<rparr>\<rparr>, keys)))
      | None \<Rightarrow>
          (if key = ''z'' \<or> key = ''m'' then
             Some (Inr (True, g\<lparr>state := (state g)\<lparr>board :=
               Board_toggle_mark (board (state g)) (cursor_x (state g)) (cursor_y (state g))\<rparr>\<rparr>, keys))
           else if key = '' '' then
             (case Game_handle_reveal g keys of
                None \<Rightarrow> None
              | Some (Inl e) \<Rightarrow> Some (Inl e)
              | Some (Inr (g', keys')) \<Rightarrow> Some (Inr (True, g', keys')))
           else if key = ''q'' then Some (Inr (False, g, keys))
           else Some (Inr (True, g, keys))))"

text \<open>
  \<^verbatim>\<open>Game.run\<close>, over the keys that \<^verbatim>\<open>stdscr.getkey\<close> will deliver: the value returned, the
  game at that moment and the keys not read. A run that waits for a key that never
  comes has not returned. Every iteration that goes on has read a key, which is why
  the recursion ends.
\<close>

lemma Game_handle_key_keys:
  "Game_handle_key g key ks = Some (Inr (continue, g', ks')) \<Longrightarrow> length ks' \<le> length ks"
  by (auto simp: Game_handle_key_def Game_handle_reveal_def Let_def
      split: option.splits sum.splits if_splits list.splits prod.splits)

function Game_run :: "Game \<Rightarrow> string list \<Rightarrow> (exn + int \<times> Game \<times> string list) option" where
  "Game_run g keys =
     (if \<not> game_over (state g) \<and> Board_all_clear (board (state g)) then
        (case Game_handle_win g keys of
           None \<Rightarrow> None
         | Some (g', keys') \<Rightarrow> Some (Inr (0, g', keys')))
      else
        (case keys of
           [] \<Rightarrow> None
         | key # ks \<Rightarrow>
             (case Game_handle_key g key ks of
                None \<Rightarrow> None
              | Some (Inl e) \<Rightarrow> Some (Inl e)
              | Some (Inr (continue, g', ks')) \<Rightarrow>
                  if \<not> continue then Some (Inr (1, g', ks')) else Game_run g' ks')))"
  by pat_completeness auto
termination
  by (relation "measure (\<lambda>(g, keys). length keys)") (auto dest: Game_handle_key_keys)

declare Game_run.simps [simp del]

text \<open>
  \<^verbatim>\<open>get_mine_count\<close>: the lines it prints and what it returns or raises. The builtin
  \<^verbatim>\<open>int\<close> is a parameter: it gives the integer a string denotes, or nothing where Python
  raises \<^verbatim>\<open>ValueError\<close>.
\<close>

definition get_mine_count :: "(string \<Rightarrow> int option) \<Rightarrow> string list \<Rightarrow> string list \<times> (exn + int)" where
  "get_mine_count py_int argv =
     (if length argv = 2 then
        (case py_int (argv ! 1) of
           None \<Rightarrow> ([''not a number''], Inl (SystemExit 1))
         | Some count \<Rightarrow>
             if count > MAX_MINES then ([''too many nyankos''], Inl (SystemExit 1))
             else ([], Inr count))
      else ([], Inr 56))"

text \<open>
  \<^verbatim>\<open>run\<close> under \<^verbatim>\<open>curses.wrapper\<close>, as \<^verbatim>\<open>main\<close> calls it: the lines printed, and whether an
  exception ended the run. The value of \<^verbatim>\<open>game.run()\<close> is dropped.
\<close>

definition run :: "(string \<Rightarrow> int option) \<Rightarrow> string list \<Rightarrow> (int \<times> int) list \<Rightarrow> string list
    \<Rightarrow> (string list \<times> (exn + unit)) option" where
  "run py_int argv ds keys =
     (case get_mine_count py_int argv of
        (out, Inl e) \<Rightarrow> Some (out, Inl e)
      | (out, Inr n) \<Rightarrow>
          (case new_Game XSIZE BOARD_HEIGHT n ds of
             None \<Rightarrow> None
           | Some (game, ds') \<Rightarrow>
               (case Game_run game keys of
                  None \<Rightarrow> None
                | Some (Inl e) \<Rightarrow> Some (out, Inl e)
                | Some (Inr r) \<Rightarrow> Some (out, Inr ()))))"

text \<open>
  The exit status of the interpreter: the code of a \<^verbatim>\<open>SystemExit\<close>, 1 for any other
  exception nobody caught, 0 when the script runs to its end.
\<close>

fun exit_status :: "exn + unit \<Rightarrow> int" where
  "exit_status (Inl (SystemExit code)) = code"
| "exit_status (Inl e) = 1"
| "exit_status (Inr u) = 0"

section \<open>minesweeper.py\<close>

text \<open>
  A cell of \<^verbatim>\<open>vvram\<close> holds the integer 0, the string \<^verbatim>\<open>'*'\<close> or a count; a cell of
  \<^verbatim>\<open>mask\<close> holds one character. The globals of the script are the fields of one
  record; the global \<^verbatim>\<open>mines\<close> is the field \<open>nmines\<close>.
\<close>

datatype vval = VInt int | VStr string

record world =
  xsize :: int
  ysize :: int
  nmines :: int
  vvram :: "vval list list"
  mask :: "char list list"

definition aca :: string where
  "aca = ''#@?''"

definition new_world :: "int \<Rightarrow> int \<Rightarrow> int \<Rightarrow> world" where
  "new_world w h n = \<lparr>xsize = w, ysize = h, nmines = n,
     vvram = new_grid w h (VInt 0), mask = new_grid w h (CHR ''#'')\<rparr>"

definition getkey :: "string \<Rightarrow> string" where
  "getkey c =
     (if c = ''KEY_UP'' then ''8''
      else if c = ''KEY_DOWN'' then ''2''
      else if c = ''KEY_RIGHT'' then ''6''
      else if c = ''KEY_LEFT'' then ''4''
      else c)"

text \<open>The \<^verbatim>\<open>while(True)\<close> of \<^verbatim>\<open>putmines\<close>: draw until a free cell comes up.\<close>

fun putmine :: "world \<Rightarrow> (int \<times> int) list \<Rightarrow> (world \<times> (int \<times> int) list) option" where
  "putmine g [] = None"
| "putmine g ((x, y) # ds) =
     (if cell_at (vvram g) x y = VInt 0
      then Some (g\<lparr>vvram := update_at (vvram g) x y (\<lambda>_. VStr ''*'')\<rparr>, ds)
      else putmine g ds)"

fun putmines_iter :: "nat \<Rightarrow> world \<Rightarrow> (int \<times> int) list \<Rightarrow> (world \<times> (int \<times> int) list) option" where
  "putmines_iter 0 g ds = Some (g, ds)"
| "putmines_iter (Suc k) g ds =
     (case putmine g ds of None \<Rightarrow> None | Some (g', ds') \<Rightarrow> putmines_iter k g' ds')"

definition putmines :: "int \<Rightarrow> world \<Rightarrow> (int \<times> int) list \<Rightarrow> (world \<times> (int \<times> int) list) option" where
  "putmines n g ds = putmines_iter (length (py_range n)) g ds"

definition calccell :: "world \<Rightarrow> int \<Rightarrow> int \<Rightarrow> world" where
  "calccell g x y =
     (if cell_at (vvram g) x y = VInt 0 then
        (let cnt = fold (\<lambda>dx. fold (\<lambda>dy cnt.
                     if x + dx \<ge> 0 \<and> y + dy \<ge> 0 \<and> x + dx < xsize g \<and> y + dy < ysize g
                     then cnt + (if cell_at (vvram g) (x + dx) (y + dy) = VStr ''*'' then 1 else 0)
                     else cnt) [-1, 0, 1]) [-1, 0, 1] (0 :: int)
         in g\<lparr>vvram := update_at (vvram g) x y (\<lambda>_. VInt cnt)\<rparr>)
      else g)"

definition calcfield :: "world \<Rightarrow> world" where
  "calcfield g0 = fold (\<lambda>x. fold (\<lambda>y g. calccell g x y) (py_range (ysize g0))) (py_range (xsize g0)) g0"

text \<open>\<^verbatim>\<open>reveal\<close>, with the number of nested calls still allowed as for \<open>Board_reveal\<close>.\<close>

fun reveal :: "nat \<Rightarrow> world \<Rightarrow> int \<Rightarrow> int \<Rightarrow> world option" where
  "reveal 0 g x y = None"
| "reveal (Suc n) g x y =
     (if cell_at (vvram g) x y \<noteq> VInt 0 \<and> cell_at (mask g) x y \<noteq> CHR '' ''
      then Some (g\<lparr>mask := update_at (mask g) x y (\<lambda>_. CHR '' '')\<rparr>)
      else if cell_at (vvram g) x y = VInt 0 \<and> cell_at (mask g) x y \<noteq> CHR '' '' then
        for_each [-1, 0, 1] (\<lambda>dx.
          for_each [-1, 0, 1] (\<lambda>dy g'.
            if x + dx \<ge> 0 \<and> y + dy \<ge> 0 \<and> x + dx < xsize g' \<and> y + dy < ysize g'
            then reveal n g' (x + dx) (y + dy) else Some g'))
          (g\<lparr>mask := update_at (mask g) x y (\<lambda>_. CHR '' '')\<rparr>)
      else Some g)"

definition endcheck :: "world \<Rightarrow> bool" where
  "endcheck g \<longleftrightarrow>
     fold (\<lambda>x. fold (\<lambda>y c.
            c + (if cell_at (mask g) x y = aca ! 0 \<or> cell_at (mask g) x y = aca ! 1 then 1 else 0))
          (py_range (ysize g)))
       (py_range (xsize g)) (0 :: int) = nmines g"

text \<open>\<^verbatim>\<open>aca.index(c)\<close>, which raises \<^verbatim>\<open>ValueError\<close> when the character is absent.\<close>

fun index_of :: "'a list \<Rightarrow> 'a \<Rightarrow> nat option" where
  "index_of [] c = None"
| "index_of (a # as) c = (if a = c then Some 0 else map_option Suc (index_of as c))"

text \<open>The expression \<^verbatim>\<open>aca[(aca.index(m)+1)%3]\<close> of \<^verbatim>\<open>mainloop\<close>.\<close>

definition next_aca :: "char \<Rightarrow> char option" where
  "next_aca m = map_option (\<lambda>i. aca ! ((i + 1) mod 3)) (index_of aca m)"

text \<open>
  \<^verbatim>\<open>mainloop\<close> from a cursor position, over the keys that \<^verbatim>\<open>stdscr.getkey\<close> will
  deliver: the value returned, the globals, the message written to the status row
  and the keys not read.
\<close>

fun mainloop_from :: "world \<Rightarrow> int \<Rightarrow> int \<Rightarrow> string list
    \<Rightarrow> (exn + int \<times> world \<times> string list \<times> string list) option" where
  "mainloop_from g x y [] = None"
| "mainloop_from g x y (k # ks) =
     (if endcheck g then Some (Inr (0, g, [''You win. hit key''], ks))
      else
        (let c = getkey k in
         if c = ''4'' then mainloop_from g (x - (if x \<noteq> 0 then 1 else 0)) y ks
         else if c = ''6'' then mainloop_from g (x + (if x \<noteq> xsize g - 1 then 1 else 0)) y ks
         else if c = ''8'' then mainloop_from g x (y - (if y \<noteq> 0 then 1 else 0)) ks
         else if c = ''2'' then mainloop_from g x (y + (if y \<noteq> ysize g - 1 then 1 else 0)) ks
         else if c = ''z'' \<and> cell_at (mask g) x y \<noteq> CHR '' '' then
           (case next_aca (cell_at (mask g) x y) of
              None \<Rightarrow> Some (Inl ValueError)
            | Some m \<Rightarrow> mainloop_from (g\<lparr>mask := update_at (mask g) x y (\<lambda>_. m)\<rparr>) x y ks)
         else if c = '' '' then
           (if cell_at (vvram g) x y = VStr ''*'' then
              (case ks of
                 [] \<Rightarrow> None
               | k' # ks' \<Rightarrow> Some (Inr (- 1, g, [''You lose. hit key''], ks')))
            else
              (case reveal depth_budget g x y of
                 None \<Rightarrow> Some (Inl RecursionError)
               | Some g' \<Rightarrow> mainloop_from g' x y ks))
         else if c = ''q'' then Some (Inr (1, g, [], ks))
         else mainloop_from g x y ks))"

definition mainloop :: "world \<Rightarrow> string list \<Rightarrow> (exn + int \<times> world \<times> string list \<times> string list) option" where
  "mainloop g keys = mainloop_from g (xsize g div 2) (ysize g div 2) keys"

text \<open>\<^verbatim>\<open>game\<close>: the value of \<^verbatim>\<open>mainloop()\<close> is dropped.\<close>

definition game :: "world \<Rightarrow> (int \<times> int) list \<Rightarrow> string list \<Rightarrow> (exn + unit) option" where
  "game g0 ds keys =
     (case putmines (nmines g0) g0 ds of
        None \<Rightarrow> None
      | Some (g1, ds') \<Rightarrow>
          (case mainloop (calcfield g1) keys of
             None \<Rightarrow> None
           | Some (Inl e) \<Rightarrow> Some (Inl e)
           | Some (Inr r) \<Rightarrow> Some (Inr ())))"

text \<open>
  The script from its first line: the check of the argument, the globals, \<^verbatim>\<open>game()\<close>;
  the lines printed, and whether an exception ended the run. Here \<^verbatim>\<open>int\<close> is called
  outside any \<^verbatim>\<open>try\<close>.
\<close>

definition script :: "(string \<Rightarrow> int option) \<Rightarrow> string list \<Rightarrow> (int \<times> int) list \<Rightarrow> string list
    \<Rightarrow> (string list \<times> (exn + unit)) option" where
  "script py_int argvs ds keys =
     (if length argvs = 2 then
        (case py_int (argvs ! 1) of
           None \<Rightarrow> Some ([], Inl ValueError)
         | Some n \<Rightarrow>
             if n > 300 then Some ([''too many mines''], Inl (SystemExit 1))
             else map_option (Pair []) (game (new_world 40 23 n) ds keys))
      else map_option (Pair []) (game (new_world 40 23 60) ds keys))"

section \<open>The flood fill, on sets of cells\<close>

text \<open>
  What both recursive reveals do to the set of revealed cells: \<open>R\<close> are the cells
  revealed so far, \<open>M\<close> the cells a call leaves alone for their mark, \<open>Z\<close> the cells from
  which the fill spreads. \<open>reach\<close> is the set the fill is expected to add: the cells at
  the end of a path from the start that runs over cells of \<open>Z\<close> and meets no cell of
  \<open>R\<close> or \<open>M\<close>.
\<close>

definition shift :: "int \<times> int \<Rightarrow> int \<times> int \<Rightarrow> int \<times> int" where
  "shift c d = (fst c + fst d, snd c + snd d)"

definition inside :: "int \<Rightarrow> int \<Rightarrow> (int \<times> int) set" where
  "inside w h = {c. inb w h (fst c) (snd c)}"

fun flood :: "nat \<Rightarrow> int \<Rightarrow> int \<Rightarrow> (int \<times> int) set \<Rightarrow> (int \<times> int) set \<Rightarrow> (int \<times> int) set
    \<Rightarrow> int \<times> int \<Rightarrow> (int \<times> int) set option" where
  "flood 0 w h M Z R c = None"
| "flood (Suc n) w h M Z R c =
     (if c \<in> R \<or> c \<in> M then Some R
      else if c \<in> Z then
        for_each offsets
          (\<lambda>d R'. if shift c d \<in> inside w h then flood n w h M Z R' (shift c d) else Some R')
          (insert c R)
      else Some (insert c R))"

inductive_set reach :: "int \<Rightarrow> int \<Rightarrow> (int \<times> int) set \<Rightarrow> (int \<times> int) set \<Rightarrow> (int \<times> int) set
    \<Rightarrow> int \<times> int \<Rightarrow> (int \<times> int) set"
  for w h M Z R s where
  start: "s \<notin> R \<Longrightarrow> s \<notin> M \<Longrightarrow> s \<in> reach w h M Z R s"
| step: "c \<in> reach w h M Z R s \<Longrightarrow> c \<in> Z \<Longrightarrow> d \<in> set offsets \<Longrightarrow> shift c d \<in> inside w h
    \<Longrightarrow> shift c d \<notin> R \<Longrightarrow> shift c d \<notin> M \<Longrightarrow> shift c d \<in> reach w h M Z R s"

definition closed_at :: "int \<Rightarrow> int \<Rightarrow> (int \<times> int) set \<Rightarrow> (int \<times> int) set \<Rightarrow> int \<times> int \<Rightarrow> bool" where
  "closed_at w h M X c \<longleftrightarrow> (\<forall>d \<in> set offsets. shift c d \<in> inside w h \<longrightarrow> shift c d \<in> X \<union> M)"

section \<open>What the reveals do to the sets of cells\<close>

definition revealed_set :: "Board \<Rightarrow> (int \<times> int) set" where
  "revealed_set b = {c \<in> inside (width b) (height b). revealed (cell_at (grid b) (fst c) (snd c))}"

definition marked_set :: "Board \<Rightarrow> (int \<times> int) set" where
  "marked_set b = {c \<in> inside (width b) (height b). MARKS ! mark (cell_at (grid b) (fst c) (snd c)) \<noteq> HashGlyph}"

definition zero_set :: "Board \<Rightarrow> (int \<times> int) set" where
  "zero_set b = {c \<in> inside (width b) (height b).
     adjacent (cell_at (grid b) (fst c) (snd c)) = 0 \<and> \<not> mine (cell_at (grid b) (fst c) (snd c))}"

definition same_static :: "Board \<Rightarrow> Board \<Rightarrow> bool" where
  "same_static b b' \<longleftrightarrow>
     width b' = width b \<and> height b' = height b \<and> mines b' = mines b
     \<and> wf_grid (width b) (height b) (grid b')
     \<and> (\<forall>c \<in> inside (width b) (height b).
          mine (cell_at (grid b') (fst c) (snd c)) = mine (cell_at (grid b) (fst c) (snd c))
        \<and> mark (cell_at (grid b') (fst c) (snd c)) = mark (cell_at (grid b) (fst c) (snd c))
        \<and> adjacent (cell_at (grid b') (fst c) (snd c)) = adjacent (cell_at (grid b) (fst c) (snd c)))"

definition shown_set :: "world \<Rightarrow> (int \<times> int) set" where
  "shown_set g = {c \<in> inside (xsize g) (ysize g). cell_at (mask g) (fst c) (snd c) = CHR '' ''}"

definition blank_set :: "world \<Rightarrow> (int \<times> int) set" where
  "blank_set g = {c \<in> inside (xsize g) (ysize g). cell_at (vvram g) (fst c) (snd c) = VInt 0}"

definition same_field :: "world \<Rightarrow> world \<Rightarrow> bool" where
  "same_field g g' \<longleftrightarrow>
     xsize g' = xsize g \<and> ysize g' = ysize g \<and> nmines g' = nmines g \<and> vvram g' = vvram g
     \<and> wf_grid (xsize g) (ysize g) (mask g')"

definition covered_set :: "world \<Rightarrow> (int \<times> int) set" where
  "covered_set g = {c \<in> inside (xsize g) (ysize g).
     cell_at (mask g) (fst c) (snd c) = CHR ''#'' \<or> cell_at (mask g) (fst c) (snd c) = CHR ''@''}"

section \<open>Neighbourhoods\<close>

definition neighbours :: "int \<Rightarrow> int \<Rightarrow> int \<Rightarrow> int \<Rightarrow> (int \<times> int) set" where
  "neighbours w h x y = {c \<in> inside w h. c \<noteq> (x, y) \<and> \<bar>fst c - x\<bar> \<le> 1 \<and> \<bar>snd c - y\<bar> \<le> 1}"

section \<open>Sets of mines\<close>

definition mine_set :: "Board \<Rightarrow> (int \<times> int) set" where
  "mine_set b = {c \<in> inside (width b) (height b). mine (cell_at (grid b) (fst c) (snd c))}"

section \<open>Sets of starred cells\<close>

definition star_set :: "world \<Rightarrow> (int \<times> int) set" where
  "star_set g = {c \<in> inside (xsize g) (ysize g). cell_at (vvram g) (fst c) (snd c) = VStr ''*''}"

definition fresh_field :: "world \<Rightarrow> bool" where
  "fresh_field g \<longleftrightarrow> wf_grid (xsize g) (ysize g) (vvram g)
     \<and> list_all (\<lambda>v. v = VInt 0 \<or> v = VStr ''*'') (concat (vvram g))"

section \<open>The zero region of a cell and its border\<close>





text \<open>
  The counts of a board are right: every cell without a mine carries the number of
  mines around it, as after the construction.
\<close>

definition counts_ok :: "Board \<Rightarrow> bool" where
  "counts_ok b \<longleftrightarrow>
     (\<forall>c \<in> inside (width b) (height b). \<not> mine (cell_at (grid b) (fst c) (snd c)) \<longrightarrow>
        adjacent (cell_at (grid b) (fst c) (snd c))
          = card {c' \<in> neighbours (width b) (height b) (fst c) (snd c).
                  mine (cell_at (grid b) (fst c') (snd c'))})"

definition field_ok :: "world \<Rightarrow> bool" where
  "field_ok g \<longleftrightarrow>
     (\<forall>c \<in> inside (xsize g) (ysize g). cell_at (vvram g) (fst c) (snd c) \<noteq> VStr ''*'' \<longrightarrow>
        cell_at (vvram g) (fst c) (snd c)
          = VInt (int (card {c' \<in> neighbours (xsize g) (ysize g) (fst c) (snd c).
                             cell_at (vvram g) (fst c') (snd c') = VStr ''*''})))"

section \<open>Facts about grids and loops\<close>

lemma wf_grid_col: "wf_grid w h g \<Longrightarrow> 0 \<le> x \<Longrightarrow> x < w \<Longrightarrow> length (g ! nat x) = nat h"
  by (simp add: wf_grid_def list_all_length)

lemma wf_grid_update [simp]: "wf_grid w h (update_at g x y f) = wf_grid w h g"
proof -
  have "length ((g[nat x := (g ! nat x)[nat y := v]]) ! n) = length (g ! n)" if "n < length g" for n v
    using that by (cases "n = nat x") simp_all
  then show ?thesis by (simp add: wf_grid_def update_at_def list_all_length)
qed

lemma cell_at_update:
  assumes "wf_grid w h g" "inb w h x y" "inb w h x' y'"
  shows "cell_at (update_at g x y f) x' y' = (if x' = x \<and> y' = y then f (cell_at g x y) else cell_at g x' y')"
proof -
  have lx: "nat x < length g" and lx': "nat x' < length g"
    using assms by (auto simp: wf_grid_def inb_def)
  have ly: "nat y < length (g ! nat x)"
    using assms wf_grid_col[of w h g x] by (auto simp: inb_def)
  have eqx: "nat x' = nat x \<longleftrightarrow> x' = x" and eqy: "nat y' = nat y \<longleftrightarrow> y' = y"
    using assms by (auto simp: inb_def)
  show ?thesis
    using lx lx' ly eqx eqy by (auto simp: cell_at_def update_at_def nth_list_update)
qed

lemma wf_new_grid: "wf_grid w h (new_grid w h c)"
  by (simp add: wf_grid_def new_grid_def list_all_length)

lemma cell_at_new_grid: "inb w h x y \<Longrightarrow> cell_at (new_grid w h c) x y = c"
  by (simp add: cell_at_def new_grid_def inb_def)

lemma in_concat_cell_at:
  assumes "wf_grid w h g"
  shows "c \<in> set (concat g) \<longleftrightarrow> (\<exists>x y. inb w h x y \<and> cell_at g x y = c)"
proof
  assume "c \<in> set (concat g)"
  then obtain col where col: "col \<in> set g" "c \<in> set col" by auto
  then obtain i where i: "i < length g" "g ! i = col" by (auto simp: in_set_conv_nth)
  from col obtain j where j: "j < length col" "col ! j = c" by (auto simp: in_set_conv_nth)
  have "length col = nat h" using assms col by (auto simp: wf_grid_def list_all_iff)
  with i j assms have "inb w h (int i) (int j) \<and> cell_at g (int i) (int j) = c"
    by (auto simp: inb_def cell_at_def wf_grid_def)
  then show "\<exists>x y. inb w h x y \<and> cell_at g x y = c" by blast
next
  assume "\<exists>x y. inb w h x y \<and> cell_at g x y = c"
  then obtain x y where xy: "inb w h x y" "cell_at g x y = c" by blast
  have "nat x < length g" using xy assms by (auto simp: inb_def wf_grid_def)
  moreover have "nat y < length (g ! nat x)"
    using xy assms wf_grid_col[of w h g x] by (auto simp: inb_def)
  ultimately show "c \<in> set (concat g)"
    using xy by (auto simp: cell_at_def intro!: bexI[of _ "g ! nat x"])
qed

lemma list_all_concat_cell_at:
  "wf_grid w h g \<Longrightarrow> list_all P (concat g) \<longleftrightarrow> (\<forall>x y. inb w h x y \<longrightarrow> P (cell_at g x y))"
  using in_concat_cell_at[of w h g] by (auto simp: list_all_iff simp del: set_concat)

lemma Board_all_clear_iff:
  "wf_Board b \<Longrightarrow>
   Board_all_clear b \<longleftrightarrow>
     (\<forall>x y. inb (width b) (height b) x y \<longrightarrow> \<not> mine (cell_at (grid b) x y) \<longrightarrow> revealed (cell_at (grid b) x y))"
proof -
  assume "wf_Board b"
  then have "wf_grid (width b) (height b) (grid b)" by (simp add: wf_Board_def)
  from list_all_concat_cell_at[OF this, of "\<lambda>cell. revealed cell \<or> mine cell"]
  show ?thesis unfolding Board_all_clear_def by blast
qed

section \<open>Facts about the flood fill on sets\<close>

lemma for_each_invariant:
  assumes "for_each xs f s = Some s'" "I s"
    and "\<And>x t t'. x \<in> set xs \<Longrightarrow> I t \<Longrightarrow> f x t = Some t' \<Longrightarrow> I t'"
  shows "I s'"
  using assms
proof (induction xs arbitrary: s)
  case Nil
  then show ?case by simp
next
  case (Cons x xs)
  from Cons.prems(1) obtain t where t: "f x s = Some t" "for_each xs f t = Some s'"
    by (auto split: option.splits)
  have "I t" using Cons.prems(3)[of x s t] Cons.prems(2) t by simp
  show ?case
    by (rule Cons.IH[OF t(2) \<open>I t\<close>]) (use Cons.prems(3) in auto)
qed

lemma for_each_total:
  assumes "I s"
    and "\<And>x t. x \<in> set xs \<Longrightarrow> I t \<Longrightarrow> \<exists>t'. f x t = Some t' \<and> I t'"
  shows "\<exists>s'. for_each xs f s = Some s' \<and> I s'"
  using assms
proof (induction xs arbitrary: s)
  case Nil
  then show ?case by simp
next
  case (Cons x xs)
  from Cons.prems obtain t where t: "f x s = Some t" "I t" by (meson list.set_intros(1))
  from Cons.IH[OF t(2)] Cons.prems(2) t show ?case by auto
qed

lemma for_each_append:
  "for_each (xs @ ys) f s = (case for_each xs f s of None \<Rightarrow> None | Some s' \<Rightarrow> for_each ys f s')"
  by (induction xs arbitrary: s) (auto split: option.splits)

lemma for_each_map: "for_each (map g xs) f s = for_each xs (\<lambda>x. f (g x)) s"
  by (induction xs arbitrary: s) (auto split: option.splits)

lemma for_each_product:
  "for_each xs (\<lambda>x. for_each ys (f x)) s = for_each (List.product xs ys) (\<lambda>(x, y). f x y) s"
  by (induction xs arbitrary: s) (auto simp: for_each_append for_each_map split: option.splits)

lemma finite_inside: "finite (inside w h)"
proof -
  have "inside w h \<subseteq> {0..<w} \<times> {0..<h}" by (auto simp: inside_def inb_def)
  then show ?thesis by (rule finite_subset) simp
qed

lemma flood_mono: "flood n w h M Z R c = Some R' \<Longrightarrow> R \<subseteq> R'"
proof (induction n arbitrary: R c R')
  case 0
  then show ?case by simp
next
  case (Suc n)
  show ?case
  proof (cases "c \<in> R \<or> c \<in> M")
    case True
    with Suc.prems show ?thesis by simp
  next
    case False
    show ?thesis
    proof (cases "c \<in> Z")
      case True
      with False Suc.prems have fe: "for_each offsets
          (\<lambda>d R'. if shift c d \<in> inside w h then flood n w h M Z R' (shift c d) else Some R')
          (insert c R) = Some R'" by simp
      have "insert c R \<subseteq> R'"
        by (rule for_each_invariant[OF fe, where I = "\<lambda>X. insert c R \<subseteq> X"])
           (auto split: if_splits dest: Suc.IH)
      then show ?thesis by blast
    next
      case False
      with \<open>\<not> (c \<in> R \<or> c \<in> M)\<close> Suc.prems show ?thesis by auto
    qed
  qed
qed

lemma flood_total:
  "card (inside w h - R) < n \<Longrightarrow> c \<in> inside w h \<Longrightarrow> \<exists>R'. flood n w h M Z R c = Some R'"
proof (induction n arbitrary: R c)
  case 0
  then show ?case by simp
next
  case (Suc n)
  show ?case
  proof (cases "c \<in> R \<or> c \<in> M \<or> c \<notin> Z")
    case True
    then show ?thesis by auto
  next
    case False
    then have c: "c \<notin> R" "c \<notin> M" "c \<in> Z" by auto
    have "card (inside w h - insert c R) < card (inside w h - R)"
      using c(1) Suc.prems(2) finite_inside[of w h]
      by (intro psubset_card_mono) auto
    with Suc.prems have small: "card (inside w h - insert c R) < n" by simp
    have "\<exists>s'. for_each offsets
          (\<lambda>d R'. if shift c d \<in> inside w h then flood n w h M Z R' (shift c d) else Some R')
          (insert c R) = Some s' \<and> insert c R \<subseteq> s'"
    proof (rule for_each_total[where I = "\<lambda>X. insert c R \<subseteq> X"])
      show "insert c R \<subseteq> insert c R" by simp
    next
      fix d X assume X: "insert c R \<subseteq> X"
      have "card (inside w h - X) \<le> card (inside w h - insert c R)"
        using X finite_inside[of w h] by (intro card_mono) auto
      with small have "card (inside w h - X) < n" by simp
      then have lt: "card (inside w h - X) < n" .
      show "\<exists>t'. (if shift c d \<in> inside w h then flood n w h M Z X (shift c d) else Some X) = Some t'
           \<and> insert c R \<subseteq> t'"
      proof (cases "shift c d \<in> inside w h")
        case True
        from Suc.IH[OF lt True] obtain Y where Y: "flood n w h M Z X (shift c d) = Some Y" by blast
        from flood_mono[OF Y] X have "insert c R \<subseteq> Y" by blast
        with Y True show ?thesis by simp
      next
        case False
        with X show ?thesis by simp
      qed
    qed
    then obtain Y where "for_each offsets
          (\<lambda>d R'. if shift c d \<in> inside w h then flood n w h M Z R' (shift c d) else Some R')
          (insert c R) = Some Y" by blast
    with c show ?thesis by simp
  qed
qed

lemma reach_weaken:
  assumes "c \<in> reach w h M Z X t" "R \<subseteq> X" "s \<notin> R" "s \<notin> M" "s \<in> Z" "d \<in> set offsets"
    "t = shift s d" "t \<in> inside w h"
  shows "c \<in> reach w h M Z R s"
  using assms
proof (induction rule: reach.induct)
  case start
  then show ?case
    using reach.step[OF reach.start[of s R M w h Z], of d] by auto
next
  case (step c d')
  then show ?case by (auto intro: reach.step)
qed

lemma flood_sound: "flood n w h M Z R s = Some R' \<Longrightarrow> R' \<subseteq> R \<union> reach w h M Z R s"
proof (induction n arbitrary: R s R')
  case 0
  then show ?case by simp
next
  case (Suc n)
  show ?case
  proof (cases "s \<in> R \<or> s \<in> M")
    case True
    with Suc.prems show ?thesis by simp
  next
    case False
    then have s: "s \<notin> R" "s \<notin> M" by auto
    then have s_reach: "s \<in> reach w h M Z R s" by (rule reach.start)
    show ?thesis
    proof (cases "s \<in> Z")
      case True
      with False Suc.prems have fe: "for_each offsets
          (\<lambda>d R'. if shift s d \<in> inside w h then flood n w h M Z R' (shift s d) else Some R')
          (insert s R) = Some R'" by simp
      have "insert s R \<subseteq> R' \<and> R' \<subseteq> R \<union> reach w h M Z R s"
      proof (rule for_each_invariant[OF fe, where I = "\<lambda>X. insert s R \<subseteq> X \<and> X \<subseteq> R \<union> reach w h M Z R s"])
        show "insert s R \<subseteq> insert s R \<and> insert s R \<subseteq> R \<union> reach w h M Z R s"
          using s_reach by auto
      next
        fix d X X'
        assume d: "d \<in> set offsets" and X: "insert s R \<subseteq> X \<and> X \<subseteq> R \<union> reach w h M Z R s"
          and body: "(if shift s d \<in> inside w h then flood n w h M Z X (shift s d) else Some X) = Some X'"
        show "insert s R \<subseteq> X' \<and> X' \<subseteq> R \<union> reach w h M Z R s"
        proof (cases "shift s d \<in> inside w h")
          case False
          with body X show ?thesis by simp
        next
          case inside: True
          with body have fl: "flood n w h M Z X (shift s d) = Some X'" by simp
          from Suc.IH[OF fl] have "X' \<subseteq> X \<union> reach w h M Z X (shift s d)" .
          moreover have "reach w h M Z X (shift s d) \<subseteq> reach w h M Z R s"
            using reach_weaken[of _ w h M Z X "shift s d" R s d] X s True d inside by auto
          moreover have "X \<subseteq> X'" using flood_mono[OF fl] .
          ultimately show ?thesis using X by blast
        qed
      qed
      then show ?thesis by simp
    next
      case False
      with s Suc.prems s_reach show ?thesis by auto
    qed
  qed
qed

lemma closed_at_mono: "closed_at w h M X c \<Longrightarrow> X \<subseteq> Y \<Longrightarrow> closed_at w h M Y c"
  unfolding closed_at_def by blast

lemma flood_closed_loop:
  assumes IH: "\<And>R c R'. flood n w h M Z R c = Some R' \<Longrightarrow>
      c \<in> R' \<union> M \<and> (\<forall>x \<in> R' - R. x \<in> Z \<longrightarrow> closed_at w h M R' x)"
    and fe: "for_each ds
          (\<lambda>d R'. if shift s d \<in> inside w h then flood n w h M Z R' (shift s d) else Some R') X = Some X'"
  shows "X \<subseteq> X' \<and> (\<forall>d \<in> set ds. shift s d \<in> inside w h \<longrightarrow> shift s d \<in> X' \<union> M)
      \<and> (\<forall>x \<in> X' - X. x \<in> Z \<longrightarrow> closed_at w h M X' x)"
  using fe
proof (induction ds arbitrary: X)
  case Nil
  then show ?case by simp
next
  case (Cons d ds)
  from Cons.prems obtain Y where
    body: "(if shift s d \<in> inside w h then flood n w h M Z X (shift s d) else Some X) = Some Y"
    and rest: "for_each ds
          (\<lambda>d R'. if shift s d \<in> inside w h then flood n w h M Z R' (shift s d) else Some R') Y = Some X'"
    by (auto split: option.splits)
  from Cons.IH[OF rest] have r: "Y \<subseteq> X'"
    "\<forall>d \<in> set ds. shift s d \<in> inside w h \<longrightarrow> shift s d \<in> X' \<union> M"
    "\<forall>x \<in> X' - Y. x \<in> Z \<longrightarrow> closed_at w h M X' x" by auto
  have b: "X \<subseteq> Y \<and> (shift s d \<in> inside w h \<longrightarrow> shift s d \<in> Y \<union> M)
      \<and> (\<forall>x \<in> Y - X. x \<in> Z \<longrightarrow> closed_at w h M Y x)"
  proof (cases "shift s d \<in> inside w h")
    case True
    with body have fl: "flood n w h M Z X (shift s d) = Some Y" by simp
    from IH[OF fl] flood_mono[OF fl] show ?thesis by auto
  next
    case False
    with body show ?thesis by auto
  qed
  have "\<forall>x \<in> X' - X. x \<in> Z \<longrightarrow> closed_at w h M X' x"
  proof (intro ballI impI)
    fix x assume x: "x \<in> X' - X" "x \<in> Z"
    show "closed_at w h M X' x"
    proof (cases "x \<in> Y")
      case True
      with x b have "closed_at w h M Y x" by auto
      then show ?thesis using r(1) by (rule closed_at_mono)
    next
      case False
      with x r(3) show ?thesis by auto
    qed
  qed
  with b r show ?case by auto
qed

lemma flood_closed:
  "flood n w h M Z R c = Some R' \<Longrightarrow>
     c \<in> R' \<union> M \<and> (\<forall>x \<in> R' - R. x \<in> Z \<longrightarrow> closed_at w h M R' x)"
proof (induction n arbitrary: R c R')
  case 0
  then show ?case by simp
next
  case (Suc n)
  show ?case
  proof (cases "c \<in> R \<or> c \<in> M")
    case True
    with Suc.prems show ?thesis by auto
  next
    case False
    show ?thesis
    proof (cases "c \<in> Z")
      case True
      with False Suc.prems have fe: "for_each offsets
          (\<lambda>d R'. if shift c d \<in> inside w h then flood n w h M Z R' (shift c d) else Some R')
          (insert c R) = Some R'" by simp
      from flood_closed_loop[of n w h M Z offsets c "insert c R" R', OF Suc.IH fe]
      have l: "insert c R \<subseteq> R'"
        "\<forall>d \<in> set offsets. shift c d \<in> inside w h \<longrightarrow> shift c d \<in> R' \<union> M"
        "\<forall>x \<in> R' - insert c R. x \<in> Z \<longrightarrow> closed_at w h M R' x" by auto
      from l(2) have "closed_at w h M R' c" by (simp add: closed_at_def)
      with l show ?thesis by auto
    next
      case False
      with \<open>\<not> (c \<in> R \<or> c \<in> M)\<close> Suc.prems show ?thesis by auto
    qed
  qed
qed

lemma flood_complete:
  assumes "flood n w h M Z R s = Some R'" "c \<in> reach w h M Z R s"
  shows "c \<in> R' - R"
  using assms(2)
proof (induction rule: reach.induct)
  case start
  with flood_closed[OF assms(1)] show ?case by auto
next
  case (step c d)
  with flood_closed[OF assms(1)] have "closed_at w h M R' c" by auto
  with step show ?case by (auto simp: closed_at_def)
qed

lemma flood_eq:
  "flood n w h M Z R s = Some R' \<Longrightarrow> R' = R \<union> reach w h M Z R s"
  using flood_sound[of n w h M Z R s R'] flood_mono[of n w h M Z R s R']
    flood_complete[of n w h M Z R s R'] by blast


section \<open>Marks\<close>

lemma update_at_id:
  "f (cell_at g x y) = cell_at g x y \<Longrightarrow> update_at g x y f = g"
  by (simp add: update_at_def cell_at_def)

lemma update_at_twice:
  assumes "wf_grid w h g" "inb w h x y"
  shows "update_at (update_at g x y f) x y f' = update_at g x y (\<lambda>c. f' (f c))"
proof -
  have "nat x < length g" using assms by (auto simp: wf_grid_def inb_def)
  moreover have "nat y < length (g ! nat x)"
    using assms wf_grid_col[of w h g x] by (auto simp: inb_def)
  ultimately show ?thesis by (simp add: update_at_def)
qed

lemma length_MARKS: "length MARKS = 3"
  by (simp add: MARKS_def)

lemma wf_Board_grid: "wf_Board b \<Longrightarrow> wf_grid (width b) (height b) (grid b)"
  by (simp add: wf_Board_def)

lemma wf_Board_mark:
  assumes "wf_Board b" "inb (width b) (height b) x y"
  shows "mark (cell_at (grid b) x y) < 3"
proof -
  have "list_all (\<lambda>cell. mark cell < length MARKS) (concat (grid b))"
    using assms(1) by (simp add: wf_Board_def)
  with list_all_concat_cell_at[OF wf_Board_grid[OF assms(1)], of "\<lambda>cell. mark cell < length MARKS"]
    assms(2)
  show ?thesis by (simp add: length_MARKS)
qed

lemma Board_toggle_mark_revealed:
  "revealed (cell_at (grid b) x y) \<Longrightarrow> Board_toggle_mark b x y = b"
  by (simp add: Board_toggle_mark_def)

lemma Board_toggle_mark_grid:
  "\<not> revealed (cell_at (grid b) x y) \<Longrightarrow>
   Board_toggle_mark b x y = b\<lparr>grid := update_at (grid b) x y (\<lambda>c. c\<lparr>mark := (mark c + 1) mod 3\<rparr>)\<rparr>"
  by (simp add: Board_toggle_mark_def length_MARKS)

lemma Board_toggle_mark_cell:
  assumes "wf_Board b" "inb (width b) (height b) x y" "\<not> revealed (cell_at (grid b) x y)"
  shows "cell_at (grid (Board_toggle_mark b x y)) x y
      = (cell_at (grid b) x y)\<lparr>mark := (mark (cell_at (grid b) x y) + 1) mod 3\<rparr>"
  using cell_at_update[OF wf_Board_grid[OF assms(1)] assms(2) assms(2)] assms(3)
  by (simp add: Board_toggle_mark_grid)

lemma Board_toggle_mark_thrice:
  assumes "wf_Board b" "inb (width b) (height b) x y"
  shows "Board_toggle_mark (Board_toggle_mark (Board_toggle_mark b x y) x y) x y = b"
proof (cases "revealed (cell_at (grid b) x y)")
  case True
  then show ?thesis by (simp add: Board_toggle_mark_revealed)
next
  case False
  let ?g = "grid b"
  let ?f = "\<lambda>c::Cell. c\<lparr>mark := (mark c + 1) mod 3\<rparr>"
  have wf: "wf_grid (width b) (height b) ?g" using assms by (simp add: wf_Board_def)
  have m: "mark (cell_at ?g x y) < 3" using assms by (rule wf_Board_mark)
  have m3: "Suc (Suc (Suc (mark (cell_at ?g x y)) mod 3) mod 3) mod 3 = mark (cell_at ?g x y)"
    using m by presburger
  have c1: "cell_at (update_at ?g x y ?f) x y = ?f (cell_at ?g x y)"
    using cell_at_update[OF wf assms(2) assms(2)] by simp
  have wf1: "wf_grid (width b) (height b) (update_at ?g x y ?f)" using wf by simp
  have c2: "cell_at (update_at (update_at ?g x y ?f) x y ?f) x y = ?f (?f (cell_at ?g x y))"
    using cell_at_update[OF wf1 assms(2) assms(2)] c1 by simp
  have b1: "Board_toggle_mark b x y = b\<lparr>grid := update_at ?g x y ?f\<rparr>"
    using False by (rule Board_toggle_mark_grid)
  have b2: "Board_toggle_mark (Board_toggle_mark b x y) x y
      = b\<lparr>grid := update_at (update_at ?g x y ?f) x y ?f\<rparr>"
    unfolding b1 using False c1 by (simp add: Board_toggle_mark_grid)
  have b3: "Board_toggle_mark (Board_toggle_mark (Board_toggle_mark b x y) x y) x y
      = b\<lparr>grid := update_at (update_at (update_at ?g x y ?f) x y ?f) x y ?f\<rparr>"
    unfolding b2 using False c2 by (simp add: Board_toggle_mark_grid)
  have "update_at (update_at (update_at ?g x y ?f) x y ?f) x y ?f
      = update_at ?g x y (\<lambda>c. ?f (?f (?f c)))"
    using update_at_twice[OF wf assms(2)] update_at_twice[OF wf1 assms(2)] by simp
  also have "\<dots> = ?g"
    by (rule update_at_id) (simp add: m3)
  finally show ?thesis by (simp add: b3)
qed

lemma next_aca_cycle:
  "next_aca (CHR ''#'') = Some (CHR ''@'')"
  "next_aca (CHR ''@'') = Some (CHR ''?'')"
  "next_aca (CHR ''?'') = Some (CHR ''#'')"
  by (simp_all add: next_aca_def aca_def)


lemma aca_nth:
  assumes "i < 3"
  shows "aca ! i \<noteq> CHR '' ''" and "next_aca (aca ! i) = Some (aca ! ((i + 1) mod 3))"
proof -
  from assms have "i = 0 \<or> i = 1 \<or> i = 2" by arith
  then show "aca ! i \<noteq> CHR '' ''" by (auto simp: aca_def)
  from \<open>i = 0 \<or> i = 1 \<or> i = 2\<close>
  show "next_aca (aca ! i) = Some (aca ! ((i + 1) mod 3))"
    by (auto simp: aca_def next_aca_def)
qed

lemma mainloop_from_z:
  assumes "\<not> endcheck g" and "i < 3" and "cell_at (mask g) u v = aca ! i"
  shows "mainloop_from g u v (''z'' # ks)
     = mainloop_from (g\<lparr>mask := update_at (mask g) u v (\<lambda>_. aca ! ((i + 1) mod 3))\<rparr>) u v ks"
  using assms(1,3) aca_nth[OF assms(2)] by (simp add: getkey_def)

lemma mainloop_from_z_blank:
  assumes "\<not> endcheck g" and "cell_at (mask g) u v = CHR '' ''"
  shows "mainloop_from g u v (''z'' # ks) = mainloop_from g u v ks"
  using assms by (simp add: getkey_def)

lemma mainloop_from_q:
  "mainloop_from g u v (''q'' # ks)
     = Some (Inr (if endcheck g then (0, g, [''You win. hit key''], ks) else (1, g, [], ks)))"
  by (simp add: getkey_def)

lemma mainloop_from_won:
  "endcheck g \<Longrightarrow> mainloop_from g u v (k # ks) = Some (Inr (0, g, [''You win. hit key''], ks))"
  by simp

lemma put_mask_twice:
  assumes "wf_grid (xsize g) (ysize g) (mask g)" and "inb (xsize g) (ysize g) u v"
  shows "(g\<lparr>mask := update_at (mask g) u v (\<lambda>_. a)\<rparr>)\<lparr>mask :=
            update_at (mask (g\<lparr>mask := update_at (mask g) u v (\<lambda>_. a)\<rparr>)) u v (\<lambda>_. c)\<rparr>
       = g\<lparr>mask := update_at (mask g) u v (\<lambda>_. c)\<rparr>"
  using update_at_twice[OF assms, of "\<lambda>_. a" "\<lambda>_. c"] by simp

lemma put_mask_same:
  "cell_at (mask g) u v = c \<Longrightarrow> g\<lparr>mask := update_at (mask g) u v (\<lambda>_. c)\<rparr> = g"
  using update_at_id[of "\<lambda>_. c" "mask g" u v] by simp

lemma mod3_steps:
  assumes "i < (3::nat)"
  shows "((i + 1) mod 3 + 1) mod 3 = (i + 2) mod 3" and "((i + 2) mod 3 + 1) mod 3 = i"
    and "(i + 1) mod 3 < 3" and "(i + 2) mod 3 < 3"
  using assms by presburger+

text \<open>
  C7. In nyankosweeper, \<^verbatim>\<open>toggle_mark\<close> on a revealed cell returns the board as it is; on a
  cell that is not revealed it changes only the mark of that cell, from 0 (the number
  sign, no mark) to 1 (the flag), from 1 to 2 (the question mark) and from 2 to 0, so
  that three toggles give the board back. In minesweeper.py the toggle is the branch of
  \<^verbatim>\<open>mainloop\<close> for the key \<^verbatim>\<open>z\<close>, seen here in the globals that the loop leaves when the
  next key is \<^verbatim>\<open>q\<close>: on a cell whose mask is the blank of a revealed cell nothing is
  written; on a cell whose mask is the character \<open>i\<close> of \<^verbatim>\<open>'#@?'\<close> one \<^verbatim>\<open>z\<close> writes the
  character \<open>i + 1\<close> (modulo 3) into that cell, a second one the character \<open>i + 2\<close>, and a
  third one the character \<open>i\<close> again, so that the globals are those before the first. The
  loop tests \<^verbatim>\<open>endcheck\<close> before it reads a key: when a written mark makes that test
  true, the next key is taken as the key after the win message and toggles nothing.
\<close>

theorem toggle_mark_cycle:
  assumes "wf_Board b" and "inb (width b) (height b) x y"
    and "wf_grid (xsize g) (ysize g) (mask g)" and "inb (xsize g) (ysize g) u v"
    and "\<not> endcheck g"
  shows "(if revealed (cell_at (grid b) x y) then Board_toggle_mark b x y = b
          else cell_at (grid (Board_toggle_mark b x y)) x y
                 = (cell_at (grid b) x y)\<lparr>mark := (mark (cell_at (grid b) x y) + 1) mod 3\<rparr>
             \<and> mark (cell_at (grid b) x y) < 3)
       \<and> Board_toggle_mark (Board_toggle_mark (Board_toggle_mark b x y) x y) x y = b
       \<and> MARKS = [HashGlyph, FlagGlyph, QuestionGlyph]
       \<and> aca = ''#@?''
       \<and> (cell_at (mask g) u v = CHR '' '' \<longrightarrow>
            mainloop_from g u v (''z'' # ''q'' # ks) = Some (Inr (1, g, [], ks)))
       \<and> (i < 3 \<and> cell_at (mask g) u v = aca ! i \<longrightarrow>
            (let g1 = g\<lparr>mask := update_at (mask g) u v (\<lambda>_. aca ! ((i + 1) mod 3))\<rparr>;
                 g2 = g\<lparr>mask := update_at (mask g) u v (\<lambda>_. aca ! ((i + 2) mod 3))\<rparr>
             in cell_at (mask g1) u v = aca ! ((i + 1) mod 3)
              \<and> cell_at (mask g2) u v = aca ! ((i + 2) mod 3)
              \<and> mainloop_from g u v (''z'' # ''q'' # ks)
                  = Some (Inr (if endcheck g1 then (0, g1, [''You win. hit key''], ks)
                               else (1, g1, [], ks)))
              \<and> (\<not> endcheck g1 \<longrightarrow>
                  mainloop_from g u v (''z'' # ''z'' # ''q'' # ks)
                    = Some (Inr (if endcheck g2 then (0, g2, [''You win. hit key''], ks)
                                 else (1, g2, [], ks))))
              \<and> (\<not> endcheck g1 \<and> \<not> endcheck g2 \<longrightarrow>
                  mainloop_from g u v (''z'' # ''z'' # ''z'' # ''q'' # ks)
                    = Some (Inr (1, g, [], ks)))
              \<and> (\<not> endcheck g1 \<and> \<not> endcheck g2 \<longrightarrow>
                  mainloop_from g u v (''z'' # ''z'' # ''z'' # ks) = mainloop_from g u v ks)
              \<and> (endcheck g1 \<longrightarrow>
                  mainloop_from g u v (''z'' # k # ks)
                    = Some (Inr (0, g1, [''You win. hit key''], ks)))
              \<and> (\<not> endcheck g1 \<and> endcheck g2 \<longrightarrow>
                  mainloop_from g u v (''z'' # ''z'' # k # ks)
                    = Some (Inr (0, g2, [''You win. hit key''], ks)))))"
proof -
  have n: "if revealed (cell_at (grid b) x y) then Board_toggle_mark b x y = b
          else cell_at (grid (Board_toggle_mark b x y)) x y
                 = (cell_at (grid b) x y)\<lparr>mark := (mark (cell_at (grid b) x y) + 1) mod 3\<rparr>
             \<and> mark (cell_at (grid b) x y) < 3"
    using Board_toggle_mark_revealed[of b x y] Board_toggle_mark_cell[OF assms(1,2)]
      wf_Board_mark[OF assms(1,2)] by simp
  have blank: "mainloop_from g u v (''z'' # ''q'' # ks) = Some (Inr (1, g, [], ks))"
    if "cell_at (mask g) u v = CHR '' ''"
    using mainloop_from_z_blank[OF assms(5) that] mainloop_from_q[of g u v ks] assms(5)
    by (simp del: mainloop_from.simps)
  have cyc: "(let g1 = g\<lparr>mask := update_at (mask g) u v (\<lambda>_. aca ! ((i + 1) mod 3))\<rparr>;
                 g2 = g\<lparr>mask := update_at (mask g) u v (\<lambda>_. aca ! ((i + 2) mod 3))\<rparr>
             in cell_at (mask g1) u v = aca ! ((i + 1) mod 3)
              \<and> cell_at (mask g2) u v = aca ! ((i + 2) mod 3)
              \<and> mainloop_from g u v (''z'' # ''q'' # ks)
                  = Some (Inr (if endcheck g1 then (0, g1, [''You win. hit key''], ks)
                               else (1, g1, [], ks)))
              \<and> (\<not> endcheck g1 \<longrightarrow>
                  mainloop_from g u v (''z'' # ''z'' # ''q'' # ks)
                    = Some (Inr (if endcheck g2 then (0, g2, [''You win. hit key''], ks)
                                 else (1, g2, [], ks))))
              \<and> (\<not> endcheck g1 \<and> \<not> endcheck g2 \<longrightarrow>
                  mainloop_from g u v (''z'' # ''z'' # ''z'' # ''q'' # ks)
                    = Some (Inr (1, g, [], ks)))
              \<and> (\<not> endcheck g1 \<and> \<not> endcheck g2 \<longrightarrow>
                  mainloop_from g u v (''z'' # ''z'' # ''z'' # ks) = mainloop_from g u v ks)
              \<and> (endcheck g1 \<longrightarrow>
                  mainloop_from g u v (''z'' # k # ks)
                    = Some (Inr (0, g1, [''You win. hit key''], ks)))
              \<and> (\<not> endcheck g1 \<and> endcheck g2 \<longrightarrow>
                  mainloop_from g u v (''z'' # ''z'' # k # ks)
                    = Some (Inr (0, g2, [''You win. hit key''], ks))))"
    if i: "i < 3" and c: "cell_at (mask g) u v = aca ! i"
  proof -
    let ?g1 = "g\<lparr>mask := update_at (mask g) u v (\<lambda>_. aca ! ((i + 1) mod 3))\<rparr>"
    let ?g2 = "g\<lparr>mask := update_at (mask g) u v (\<lambda>_. aca ! ((i + 2) mod 3))\<rparr>"
    have c1: "cell_at (mask ?g1) u v = aca ! ((i + 1) mod 3)"
      using cell_at_update[OF assms(3,4,4)] by simp
    have c2: "cell_at (mask ?g2) u v = aca ! ((i + 2) mod 3)"
      using cell_at_update[OF assms(3,4,4)] by simp
    have s1: "mainloop_from g u v (''z'' # ks') = mainloop_from ?g1 u v ks'" for ks'
      using assms(5) i c by (rule mainloop_from_z)
    have g12: "?g1\<lparr>mask := update_at (mask ?g1) u v (\<lambda>_. aca ! ((i + 2) mod 3))\<rparr> = ?g2"
      using assms(3,4) by (rule put_mask_twice)
    have s2: "mainloop_from ?g1 u v (''z'' # ks') = mainloop_from ?g2 u v ks'"
      if "\<not> endcheck ?g1" for ks'
      using mainloop_from_z[OF that mod3_steps(3)[OF i] c1, of ks'] g12 mod3_steps(1)[OF i]
      by (simp del: mainloop_from.simps)
    have g23: "?g2\<lparr>mask := update_at (mask ?g2) u v (\<lambda>_. aca ! i)\<rparr>
        = g\<lparr>mask := update_at (mask g) u v (\<lambda>_. aca ! i)\<rparr>"
      using assms(3,4) by (rule put_mask_twice)
    have g3: "g\<lparr>mask := update_at (mask g) u v (\<lambda>_. aca ! i)\<rparr> = g"
      using c by (rule put_mask_same)
    have s3: "mainloop_from ?g2 u v (''z'' # ks') = mainloop_from g u v ks'"
      if "\<not> endcheck ?g2" for ks'
      using mainloop_from_z[OF that mod3_steps(4)[OF i] c2, of ks'] g23 g3 mod3_steps(2)[OF i]
      by (simp del: mainloop_from.simps)
    have r1: "mainloop_from g u v (''z'' # ''q'' # ks)
        = Some (Inr (if endcheck ?g1 then (0, ?g1, [''You win. hit key''], ks)
                     else (1, ?g1, [], ks)))"
      unfolding s1 by (rule mainloop_from_q)
    have r2: "mainloop_from g u v (''z'' # ''z'' # ''q'' # ks)
        = Some (Inr (if endcheck ?g2 then (0, ?g2, [''You win. hit key''], ks)
                     else (1, ?g2, [], ks)))"
      if "\<not> endcheck ?g1"
      unfolding s1 s2[OF that] by (rule mainloop_from_q)
    have r3: "mainloop_from g u v (''z'' # ''z'' # ''z'' # ''q'' # ks) = Some (Inr (1, g, [], ks))"
      if "\<not> endcheck ?g1" "\<not> endcheck ?g2"
      unfolding s1 s2[OF that(1)] s3[OF that(2)] using assms(5)
      by (simp only: mainloop_from_q if_False)
    have r4: "mainloop_from g u v (''z'' # k # ks) = Some (Inr (0, ?g1, [''You win. hit key''], ks))"
      if "endcheck ?g1"
      unfolding s1 using that by (rule mainloop_from_won)
    have r5: "mainloop_from g u v (''z'' # ''z'' # k # ks)
        = Some (Inr (0, ?g2, [''You win. hit key''], ks))"
      if "\<not> endcheck ?g1" "endcheck ?g2"
      unfolding s1 s2[OF that(1)] using that(2) by (rule mainloop_from_won)
    have r6: "mainloop_from g u v (''z'' # ''z'' # ''z'' # ks) = mainloop_from g u v ks"
      if "\<not> endcheck ?g1" "\<not> endcheck ?g2"
      unfolding s1 s2[OF that(1)] s3[OF that(2)] by (rule refl)
    show ?thesis
      unfolding Let_def using c1 c2 r1 r2 r3 r4 r5 r6 by blast
  qed
  have a: "aca = ''#@?''" by (rule aca_def)
  note t = Board_toggle_mark_thrice[OF assms(1,2)]
  show ?thesis
    apply (intro conjI impI)
         apply (rule n)
        apply (rule t)
       apply (rule MARKS_def)
      apply (rule a)
     apply (erule blank)
    apply (erule conjE)
    apply (erule (1) cyc)
    done
qed

theorem toggle_mark_cycle_witness:
  "wf_Board \<lparr>width = 1, height = 1, mines = 0, grid = [[new_Cell]]\<rparr>
   \<and> inb 1 1 0 0
   \<and> wf_grid 2 1 (mask (new_world 2 1 0))
   \<and> inb 2 1 0 0
   \<and> \<not> endcheck (new_world 2 1 0)
   \<and> cell_at (grid (Board_toggle_mark \<lparr>width = 1, height = 1, mines = 0, grid = [[new_Cell]]\<rparr> 0 0)) 0 0
     = new_Cell\<lparr>mark := 1\<rparr>
   \<and> Board_toggle_mark (Board_toggle_mark (Board_toggle_mark
        \<lparr>width = 1, height = 1, mines = 0, grid = [[new_Cell]]\<rparr> 0 0) 0 0) 0 0
     = \<lparr>width = 1, height = 1, mines = 0, grid = [[new_Cell]]\<rparr>
   \<and> mainloop_from (new_world 2 1 0) 0 0 [''z'', ''q'']
     = Some (Inr (1, (new_world 2 1 0)\<lparr>mask := [[CHR ''@''], [CHR ''#'']]\<rparr>, [], []))
   \<and> mainloop_from (new_world 2 1 0) 0 0 [''z'', ''z'', ''q'']
     = Some (Inr (1, (new_world 2 1 0)\<lparr>mask := [[CHR ''?''], [CHR ''#'']]\<rparr>, [], []))
   \<and> mainloop_from (new_world 2 1 0) 0 0 [''z'', ''z'', ''z'', ''q'']
     = Some (Inr (1, new_world 2 1 0, [], []))"
proof -
  let ?b = "\<lparr>width = 1, height = 1, mines = 0, grid = [[new_Cell]]\<rparr>"
  let ?g = "new_world 2 1 0"
  let ?g1 = "?g\<lparr>mask := [[CHR ''@''], [CHR ''#'']]\<rparr>"
  let ?g2 = "?g\<lparr>mask := [[CHR ''?''], [CHR ''#'']]\<rparr>"
  have wf: "wf_Board ?b"
    by (simp add: wf_Board_def wf_grid_def new_Cell_def MARKS_def)
  have ib: "inb (width ?b) (height ?b) 0 0" by (simp add: inb_def)
  have wfm: "wf_grid (xsize ?g) (ysize ?g) (mask ?g)"
    by (simp add: new_world_def wf_new_grid)
  have ibm: "inb (xsize ?g) (ysize ?g) 0 0" by (simp add: new_world_def inb_def)
  have ne: "\<not> endcheck ?g"
    by (simp add: endcheck_def new_world_def new_grid_def py_range_def cell_at_def aca_def
        numeral_2_eq_2)
  have ne1: "\<not> endcheck ?g1"
    by (simp add: endcheck_def new_world_def new_grid_def py_range_def cell_at_def aca_def
        numeral_2_eq_2)
  have ne2: "\<not> endcheck ?g2"
    by (simp add: endcheck_def new_world_def new_grid_def py_range_def cell_at_def aca_def
        numeral_2_eq_2)
  have r: "\<not> revealed (cell_at (grid ?b) 0 0)" "mark (cell_at (grid ?b) 0 0) = 0"
    by (simp_all add: cell_at_def new_Cell_def)
  have c: "cell_at (grid ?b) 0 0 = new_Cell" by (simp add: cell_at_def)
  have m: "cell_at (mask ?g) 0 0 = aca ! 0"
    by (simp add: new_world_def new_grid_def cell_at_def aca_def numeral_2_eq_2)
  have u1: "?g\<lparr>mask := update_at (mask ?g) 0 0 (\<lambda>_. aca ! ((0 + 1) mod 3))\<rparr> = ?g1"
    by (simp add: new_world_def new_grid_def update_at_def aca_def numeral_2_eq_2)
  have u2: "?g\<lparr>mask := update_at (mask ?g) 0 0 (\<lambda>_. aca ! ((0 + 2) mod 3))\<rparr> = ?g2"
    by (simp add: new_world_def new_grid_def update_at_def aca_def numeral_2_eq_2)
  note t = toggle_mark_cycle[OF wf ib wfm ibm ne, where i = 0 and ks = "[]"]
  have 1: "cell_at (grid (Board_toggle_mark ?b 0 0)) 0 0 = new_Cell\<lparr>mark := 1\<rparr>"
    using t r c by simp
  have 2: "Board_toggle_mark (Board_toggle_mark (Board_toggle_mark ?b 0 0) 0 0) 0 0 = ?b"
    using t by blast
  have i0: "(0::nat) < 3" by simp
  from t m i0 have l: "let g1 = ?g\<lparr>mask := update_at (mask ?g) 0 0 (\<lambda>_. aca ! ((0 + 1) mod 3))\<rparr>;
                 g2 = ?g\<lparr>mask := update_at (mask ?g) 0 0 (\<lambda>_. aca ! ((0 + 2) mod 3))\<rparr>
             in mainloop_from ?g 0 0 (''z'' # ''q'' # [])
                  = Some (Inr (if endcheck g1 then (0, g1, [''You win. hit key''], [])
                               else (1, g1, [], [])))
              \<and> (\<not> endcheck g1 \<longrightarrow>
                  mainloop_from ?g 0 0 (''z'' # ''z'' # ''q'' # [])
                    = Some (Inr (if endcheck g2 then (0, g2, [''You win. hit key''], [])
                                 else (1, g2, [], []))))
              \<and> (\<not> endcheck g1 \<and> \<not> endcheck g2 \<longrightarrow>
                  mainloop_from ?g 0 0 (''z'' # ''z'' # ''z'' # ''q'' # [])
                    = Some (Inr (1, ?g, [], [])))"
    unfolding Let_def by blast
  have 3: "mainloop_from ?g 0 0 [''z'', ''q''] = Some (Inr (1, ?g1, [], []))"
    using l ne1 unfolding Let_def u1 u2 by (simp del: mainloop_from.simps)
  have 4: "mainloop_from ?g 0 0 [''z'', ''z'', ''q''] = Some (Inr (1, ?g2, [], []))"
    using l ne1 ne2 unfolding Let_def u1 u2 by (simp del: mainloop_from.simps)
  have 5: "mainloop_from ?g 0 0 [''z'', ''z'', ''z'', ''q''] = Some (Inr (1, ?g, [], []))"
    using l ne1 ne2 unfolding Let_def u1 u2 by (simp del: mainloop_from.simps)
  have wfm': "wf_grid 2 1 (mask ?g)" using wfm by (simp add: new_world_def)
  have ibm': "inb 2 1 0 0" by (simp add: inb_def)
  have ib': "inb 1 1 0 0" by (simp add: inb_def)
  show ?thesis
    using wf ib' wfm' ibm' ne 1 2 3 4 5 by (intro conjI)
qed

section \<open>The recursive reveals as flood fills\<close>

lemma for_each_rel:
  assumes "P s t" and "\<And>x s t. x \<in> set xs \<Longrightarrow> P s t \<Longrightarrow> rel_option P (f x s) (g x t)"
  shows "rel_option P (for_each xs f s) (for_each xs g t)"
  using assms
proof (induction xs arbitrary: s t)
  case Nil
  then show ?case by simp
next
  case (Cons x xs)
  have r: "rel_option P (f x s) (g x t)" using Cons.prems by simp
  show ?case
  proof (cases "f x s")
    case None
    with r show ?thesis by (cases "g x t") simp_all
  next
    case (Some s')
    with r obtain t' where t': "g x t = Some t'" "P s' t'" by (cases "g x t") simp_all
    have "rel_option P (for_each xs f s') (for_each xs g t')"
      by (rule Cons.IH[OF t'(2)]) (use Cons.prems(2) in simp)
    with Some t' show ?thesis by simp
  qed
qed

lemma same_static_refl: "wf_grid (width b) (height b) (grid b) \<Longrightarrow> same_static b b"
  by (simp add: same_static_def)

lemma same_static_trans: "same_static a b \<Longrightarrow> same_static b c \<Longrightarrow> same_static a c"
  by (simp add: same_static_def)

lemma same_static_sets:
  assumes "same_static b b'"
  shows "marked_set b' = marked_set b \<and> zero_set b' = zero_set b"
proof -
  have wh: "width b' = width b" "height b' = height b"
    using assms by (simp_all add: same_static_def)
  have eq: "mine (cell_at (grid b') (fst c) (snd c)) = mine (cell_at (grid b) (fst c) (snd c))
        \<and> mark (cell_at (grid b') (fst c) (snd c)) = mark (cell_at (grid b) (fst c) (snd c))
        \<and> adjacent (cell_at (grid b') (fst c) (snd c)) = adjacent (cell_at (grid b) (fst c) (snd c))"
    if "c \<in> inside (width b) (height b)" for c
    using assms that unfolding same_static_def by blast
  show ?thesis
    unfolding marked_set_def zero_set_def wh
    by (intro conjI Collect_cong conj_cong refl) (simp_all add: eq)
qed

lemma in_inside [simp]: "(x, y) \<in> inside w h \<longleftrightarrow> inb w h x y"
  by (simp add: inside_def)

lemma reveal_cell_static:
  assumes "wf_grid (width b) (height b) (grid b)" "inb (width b) (height b) x y"
  shows "same_static b (b\<lparr>grid := update_at (grid b) x y (\<lambda>c. c\<lparr>revealed := True\<rparr>)\<rparr>)"
  using assms cell_at_update[OF assms(1) assms(2)]
  by (auto simp: same_static_def inside_def)

lemma reveal_cell_set:
  assumes "wf_grid (width b) (height b) (grid b)" "inb (width b) (height b) x y"
  shows "revealed_set (b\<lparr>grid := update_at (grid b) x y (\<lambda>c. c\<lparr>revealed := True\<rparr>)\<rparr>)
       = insert (x, y) (revealed_set b)"
  using assms cell_at_update[OF assms(1) assms(2)]
  by (auto simp: revealed_set_def inside_def)

lemma for_each_offsets:
  "for_each offsets (\<lambda>(dx, dy). f dx dy) s = for_each [-1, 0, 1] (\<lambda>dx. for_each [-1, 0, 1] (f dx)) s"
  by (simp only: offsets_def for_each_product)

lemma Board_reveal_Suc:
  "Board_reveal (Suc n) b x y =
     (if revealed (cell_at (grid b) x y) \<or> MARKS ! mark (cell_at (grid b) x y) \<noteq> HashGlyph then Some b
      else if adjacent (cell_at (grid b) x y) = 0 \<and> \<not> mine (cell_at (grid b) x y) then
        for_each offsets (\<lambda>(dx, dy) b'.
            if inb (width b') (height b') (x + dx) (y + dy)
            then Board_reveal n b' (x + dx) (y + dy) else Some b')
          (b\<lparr>grid := update_at (grid b) x y (\<lambda>c. c\<lparr>revealed := True\<rparr>)\<rparr>)
      else Some (b\<lparr>grid := update_at (grid b) x y (\<lambda>c. c\<lparr>revealed := True\<rparr>)\<rparr>))"
  by (simp only: Board_reveal.simps Let_def for_each_offsets inb_def)

lemma Board_reveal_flood:
  assumes "wf_grid (width b) (height b) (grid b)" "inb (width b) (height b) x y"
  shows "rel_option (\<lambda>b' R'. same_static b b' \<and> revealed_set b' = R')
           (Board_reveal n b x y)
           (flood n (width b) (height b) (marked_set b) (zero_set b) (revealed_set b) (x, y))"
  using assms
proof (induction n arbitrary: b x y)
  case 0
  then show ?case by simp
next
  case (Suc n)
  let ?cell = "cell_at (grid b) x y"
  let ?b1 = "b\<lparr>grid := update_at (grid b) x y (\<lambda>c. c\<lparr>revealed := True\<rparr>)\<rparr>"
  let ?P = "\<lambda>b' R'. same_static b b' \<and> revealed_set b' = R'"
  have g: "(revealed ?cell \<or> MARKS ! mark ?cell \<noteq> HashGlyph)
      \<longleftrightarrow> ((x, y) \<in> revealed_set b \<or> (x, y) \<in> marked_set b)"
    using Suc.prems by (simp add: revealed_set_def marked_set_def)
  have z: "(adjacent ?cell = 0 \<and> \<not> mine ?cell) \<longleftrightarrow> (x, y) \<in> zero_set b"
    using Suc.prems by (simp add: zero_set_def)
  have P1: "?P ?b1 (insert (x, y) (revealed_set b))"
    using reveal_cell_static[OF Suc.prems] reveal_cell_set[OF Suc.prems] by simp
  show ?case
  proof (cases "revealed ?cell \<or> MARKS ! mark ?cell \<noteq> HashGlyph")
    case True
    with g same_static_refl[OF Suc.prems(1)] show ?thesis
      by (simp add: Board_reveal_Suc del: Board_reveal.simps)
  next
    case False
    then have ng: "\<not> ((x, y) \<in> revealed_set b \<or> (x, y) \<in> marked_set b)" using g by simp
    show ?thesis
    proof (cases "adjacent ?cell = 0 \<and> \<not> mine ?cell")
      case nz: False
      then have "(x, y) \<notin> zero_set b" using z by simp
      with nz False ng P1 show ?thesis
        by (auto simp add: Board_reveal_Suc simp del: Board_reveal.simps)
    next
      case True
      then have iz: "(x, y) \<in> zero_set b" using z by simp
      have loop: "rel_option ?P
          (for_each offsets (\<lambda>(dx, dy) b'.
                if inb (width b') (height b') (x + dx) (y + dy)
                then Board_reveal n b' (x + dx) (y + dy) else Some b') ?b1)
          (for_each offsets
             (\<lambda>d R'. if shift (x, y) d \<in> inside (width b) (height b)
                      then flood n (width b) (height b) (marked_set b) (zero_set b) R' (shift (x, y) d)
                      else Some R')
             (insert (x, y) (revealed_set b)))"
      proof (rule for_each_rel[where P = ?P])
        show "?P ?b1 (insert (x, y) (revealed_set b))" by (rule P1)
      next
        fix d :: "int \<times> int" and b' :: Board and R' :: "(int \<times> int) set"
        assume P: "same_static b b' \<and> revealed_set b' = R'"
        obtain dx dy where d: "d = (dx, dy)" by (cases d)
        have wh: "width b' = width b" "height b' = height b"
          and wf': "wf_grid (width b') (height b') (grid b')"
          using P by (simp_all add: same_static_def)
        show "rel_option ?P
           ((case d of (dx, dy) \<Rightarrow> \<lambda>b'.
                if inb (width b') (height b') (x + dx) (y + dy)
                then Board_reveal n b' (x + dx) (y + dy) else Some b') b')
           (if shift (x, y) d \<in> inside (width b) (height b)
            then flood n (width b) (height b) (marked_set b) (zero_set b) R' (shift (x, y) d)
            else Some R')"
        proof (cases "inb (width b) (height b) (x + dx) (y + dy)")
          case False
          with P d wh show ?thesis by (simp add: shift_def)
        next
          case True
          then have ib': "inb (width b') (height b') (x + dx) (y + dy)" using wh by simp
          from Suc.IH[OF wf' ib']
          have "rel_option (\<lambda>b'' R''. same_static b' b'' \<and> revealed_set b'' = R'')
             (Board_reveal n b' (x + dx) (y + dy))
             (flood n (width b) (height b) (marked_set b) (zero_set b) R' (x + dx, y + dy))"
            using P same_static_sets[of b b'] wh by simp
          then have "rel_option ?P (Board_reveal n b' (x + dx) (y + dy))
             (flood n (width b) (height b) (marked_set b) (zero_set b) R' (x + dx, y + dy))"
            by (rule option.rel_mono_strong) (use P same_static_trans in blast)
          with True d wh show ?thesis by (simp add: shift_def)
        qed
      qed
      have "Board_reveal (Suc n) b x y = for_each offsets (\<lambda>(dx, dy) b'.
                if inb (width b') (height b') (x + dx) (y + dy)
                then Board_reveal n b' (x + dx) (y + dy) else Some b') ?b1"
        using False True by (simp add: Board_reveal_Suc del: Board_reveal.simps)
      moreover have "flood (Suc n) (width b) (height b) (marked_set b) (zero_set b) (revealed_set b) (x, y)
          = for_each offsets
             (\<lambda>d R'. if shift (x, y) d \<in> inside (width b) (height b)
                      then flood n (width b) (height b) (marked_set b) (zero_set b) R' (shift (x, y) d)
                      else Some R')
             (insert (x, y) (revealed_set b))"
        using ng iz by simp
      ultimately show ?thesis using loop by (simp del: Board_reveal.simps flood.simps)
    qed
  qed
qed

lemma reveal_Suc:
  "reveal (Suc n) g x y =
     (if cell_at (mask g) x y = CHR '' '' then Some g
      else if cell_at (vvram g) x y = VInt 0 then
        for_each offsets (\<lambda>(dx, dy) g'.
            if inb (xsize g') (ysize g') (x + dx) (y + dy)
            then reveal n g' (x + dx) (y + dy) else Some g')
          (g\<lparr>mask := update_at (mask g) x y (\<lambda>_. CHR '' '')\<rparr>)
      else Some (g\<lparr>mask := update_at (mask g) x y (\<lambda>_. CHR '' '')\<rparr>))"
proof -
  have c: "(x + dx \<ge> 0 \<and> y + dy \<ge> 0 \<and> x + dx < xsize g' \<and> y + dy < ysize g')
      = inb (xsize g') (ysize g') (x + dx) (y + dy)" for dx dy g'
    by (auto simp: inb_def)
  show ?thesis
    by (simp only: reveal.simps for_each_offsets c) simp
qed

lemma same_field_sets: "same_field g g' \<Longrightarrow> blank_set g' = blank_set g"
  by (simp add: same_field_def blank_set_def)

lemma same_field_trans: "same_field a b \<Longrightarrow> same_field b c \<Longrightarrow> same_field a c"
  by (simp add: same_field_def)

lemma show_cell_set:
  assumes "wf_grid (xsize g) (ysize g) (mask g)" "inb (xsize g) (ysize g) x y"
  shows "shown_set (g\<lparr>mask := update_at (mask g) x y (\<lambda>_. CHR '' '')\<rparr>) = insert (x, y) (shown_set g)"
  using assms cell_at_update[OF assms(1) assms(2)]
  by (auto simp: shown_set_def inside_def)

lemma reveal_flood:
  assumes "wf_grid (xsize g) (ysize g) (mask g)" "inb (xsize g) (ysize g) x y"
  shows "rel_option (\<lambda>g' R'. same_field g g' \<and> shown_set g' = R')
           (reveal n g x y)
           (flood n (xsize g) (ysize g) {} (blank_set g) (shown_set g) (x, y))"
  using assms
proof (induction n arbitrary: g x y)
  case 0
  then show ?case by simp
next
  case (Suc n)
  let ?g1 = "g\<lparr>mask := update_at (mask g) x y (\<lambda>_. CHR '' '')\<rparr>"
  let ?P = "\<lambda>g' R'. same_field g g' \<and> shown_set g' = R'"
  have sh: "cell_at (mask g) x y = CHR '' '' \<longleftrightarrow> (x, y) \<in> shown_set g"
    using Suc.prems by (simp add: shown_set_def)
  have z: "cell_at (vvram g) x y = VInt 0 \<longleftrightarrow> (x, y) \<in> blank_set g"
    using Suc.prems by (simp add: blank_set_def)
  have P1: "?P ?g1 (insert (x, y) (shown_set g))"
    using show_cell_set[OF Suc.prems] Suc.prems(1) by (simp add: same_field_def)
  have P0: "?P g (shown_set g)" using Suc.prems(1) by (simp add: same_field_def)
  show ?case
  proof (cases "cell_at (mask g) x y = CHR '' ''")
    case True
    with sh P0 show ?thesis by (simp add: reveal_Suc del: reveal.simps)
  next
    case False
    then have ng: "(x, y) \<notin> shown_set g" using sh by simp
    show ?thesis
    proof (cases "cell_at (vvram g) x y = VInt 0")
      case nz: False
      then have "(x, y) \<notin> blank_set g" using z by simp
      with nz False ng P1 show ?thesis by (simp add: reveal_Suc del: reveal.simps)
    next
      case True
      then have iz: "(x, y) \<in> blank_set g" using z by simp
      have loop: "rel_option ?P
          (for_each offsets (\<lambda>(dx, dy) g'.
                if inb (xsize g') (ysize g') (x + dx) (y + dy)
                then reveal n g' (x + dx) (y + dy) else Some g') ?g1)
          (for_each offsets
             (\<lambda>d R'. if shift (x, y) d \<in> inside (xsize g) (ysize g)
                      then flood n (xsize g) (ysize g) {} (blank_set g) R' (shift (x, y) d)
                      else Some R')
             (insert (x, y) (shown_set g)))"
      proof (rule for_each_rel[where P = ?P])
        show "?P ?g1 (insert (x, y) (shown_set g))" by (rule P1)
      next
        fix d :: "int \<times> int" and g' :: world and R' :: "(int \<times> int) set"
        assume P: "same_field g g' \<and> shown_set g' = R'"
        obtain dx dy where d: "d = (dx, dy)" by (cases d)
        have wh: "xsize g' = xsize g" "ysize g' = ysize g"
          and wf': "wf_grid (xsize g') (ysize g') (mask g')"
          using P by (simp_all add: same_field_def)
        show "rel_option ?P
           ((case d of (dx, dy) \<Rightarrow> \<lambda>g'.
                if inb (xsize g') (ysize g') (x + dx) (y + dy)
                then reveal n g' (x + dx) (y + dy) else Some g') g')
           (if shift (x, y) d \<in> inside (xsize g) (ysize g)
            then flood n (xsize g) (ysize g) {} (blank_set g) R' (shift (x, y) d)
            else Some R')"
        proof (cases "inb (xsize g) (ysize g) (x + dx) (y + dy)")
          case False
          with P d wh show ?thesis by (simp add: shift_def)
        next
          case True
          then have ib': "inb (xsize g') (ysize g') (x + dx) (y + dy)" using wh by simp
          from Suc.IH[OF wf' ib']
          have "rel_option (\<lambda>g'' R''. same_field g' g'' \<and> shown_set g'' = R'')
             (reveal n g' (x + dx) (y + dy))
             (flood n (xsize g) (ysize g) {} (blank_set g) R' (x + dx, y + dy))"
            using P same_field_sets[of g g'] wh by simp
          then have "rel_option ?P (reveal n g' (x + dx) (y + dy))
             (flood n (xsize g) (ysize g) {} (blank_set g) R' (x + dx, y + dy))"
            by (rule option.rel_mono_strong) (use P same_field_trans in blast)
          with True d wh show ?thesis by (simp add: shift_def)
        qed
      qed
      have "reveal (Suc n) g x y = for_each offsets (\<lambda>(dx, dy) g'.
                if inb (xsize g') (ysize g') (x + dx) (y + dy)
                then reveal n g' (x + dx) (y + dy) else Some g') ?g1"
        using False True by (simp add: reveal_Suc del: reveal.simps)
      moreover have "flood (Suc n) (xsize g) (ysize g) {} (blank_set g) (shown_set g) (x, y)
          = for_each offsets
             (\<lambda>d R'. if shift (x, y) d \<in> inside (xsize g) (ysize g)
                      then flood n (xsize g) (ysize g) {} (blank_set g) R' (shift (x, y) d)
                      else Some R')
             (insert (x, y) (shown_set g))"
        using ng iz by simp
      ultimately show ?thesis using loop by (simp del: reveal.simps flood.simps)
    qed
  qed
qed

lemma inside_eq: "inside w h = {0..<w} \<times> {0..<h}"
  by (auto simp: inside_def inb_def)

lemma card_inside: "card (inside w h) = nat w * nat h"
  by (simp add: inside_eq card_cartesian_product)

lemma card_unrevealed_le: "card (inside w h - R) \<le> nat w * nat h"
  using card_mono[OF finite_inside, of "inside w h - R" w h] by (simp add: card_inside)

section \<open>Termination of the reveals\<close>

lemma Board_reveal_sets:
  assumes "wf_grid (width b) (height b) (grid b)" "inb (width b) (height b) x y"
    and "Board_reveal n b x y = Some b'"
  shows "same_static b b' \<and> revealed_set b' = revealed_set b
      \<union> reach (width b) (height b) (marked_set b) (zero_set b) (revealed_set b) (x, y)"
proof -
  from Board_reveal_flood[OF assms(1,2), of n] assms(3)
  obtain R' where R': "flood n (width b) (height b) (marked_set b) (zero_set b) (revealed_set b) (x, y) = Some R'"
    "same_static b b'" "revealed_set b' = R'"
    by (cases "flood n (width b) (height b) (marked_set b) (zero_set b) (revealed_set b) (x, y)") simp_all
  from flood_eq[OF R'(1)] R'(2,3) show ?thesis by simp
qed

lemma Board_reveal_total:
  assumes "wf_grid (width b) (height b) (grid b)" "inb (width b) (height b) x y"
    and "card (inside (width b) (height b) - revealed_set b) < n"
  shows "\<exists>b'. Board_reveal n b x y = Some b'"
proof -
  from flood_total[OF assms(3), of "(x, y)" "marked_set b" "zero_set b"] assms(2)
  obtain R' where "flood n (width b) (height b) (marked_set b) (zero_set b) (revealed_set b) (x, y) = Some R'"
    by auto
  with Board_reveal_flood[OF assms(1,2), of n] show ?thesis
    by (cases "Board_reveal n b x y") simp_all
qed

lemma reveal_sets:
  assumes "wf_grid (xsize g) (ysize g) (mask g)" "inb (xsize g) (ysize g) x y"
    and "reveal n g x y = Some g'"
  shows "same_field g g' \<and> shown_set g' = shown_set g
      \<union> reach (xsize g) (ysize g) {} (blank_set g) (shown_set g) (x, y)"
proof -
  from reveal_flood[OF assms(1,2), of n] assms(3)
  obtain R' where R': "flood n (xsize g) (ysize g) {} (blank_set g) (shown_set g) (x, y) = Some R'"
    "same_field g g'" "shown_set g' = R'"
    by (cases "flood n (xsize g) (ysize g) {} (blank_set g) (shown_set g) (x, y)") simp_all
  from flood_eq[OF R'(1)] R'(2,3) show ?thesis by simp
qed

lemma reveal_total:
  assumes "wf_grid (xsize g) (ysize g) (mask g)" "inb (xsize g) (ysize g) x y"
    and "card (inside (xsize g) (ysize g) - shown_set g) < n"
  shows "\<exists>g'. reveal n g x y = Some g'"
proof -
  from flood_total[OF assms(3), of "(x, y)" "{}" "blank_set g"] assms(2)
  obtain R' where "flood n (xsize g) (ysize g) {} (blank_set g) (shown_set g) (x, y) = Some R'"
    by auto
  with reveal_flood[OF assms(1,2), of n] show ?thesis
    by (cases "reveal n g x y") simp_all
qed

lemma card_less_after:
  assumes "c \<in> inside w h" "c \<notin> R" "c \<in> R'" "R \<subseteq> R'"
  shows "card (inside w h - R') < card (inside w h - R)"
  using assms finite_inside[of w h] by (intro psubset_card_mono) auto

text \<open>
  C8. Both recursive reveals return on every well-formed grid and every cell of it, as
  soon as the interpreter allows a chain of nested calls longer than the number of
  cells not yet revealed; one more than the number of cells of the grid always
  suffices. A call on a cell that is already revealed (or, in nyankosweeper, marked)
  returns the state it was given; any other call leaves its cell revealed and strictly
  fewer cells unrevealed, and no call ever hides a cell again.
\<close>

theorem reveal_terminates:
  assumes "wf_grid (width b) (height b) (grid b)" and "inb (width b) (height b) x y"
    and "wf_grid (xsize g) (ysize g) (mask g)" and "inb (xsize g) (ysize g) u v"
    and "card (inside (width b) (height b) - revealed_set b) < n"
    and "card (inside (xsize g) (ysize g) - shown_set g) < m"
  shows "(\<exists>b'. Board_reveal (Suc (nat (width b) * nat (height b))) b x y = Some b')
       \<and> (\<exists>g'. reveal (Suc (nat (xsize g) * nat (ysize g))) g u v = Some g')
       \<and> (\<exists>b'. Board_reveal n b x y = Some b' \<and> revealed_set b \<subseteq> revealed_set b'
             \<and> (if revealed (cell_at (grid b) x y) \<or> MARKS ! mark (cell_at (grid b) x y) \<noteq> HashGlyph
                 then b' = b
                 else (x, y) \<in> revealed_set b'
                   \<and> card (inside (width b) (height b) - revealed_set b')
                       < card (inside (width b) (height b) - revealed_set b)))
       \<and> (\<exists>g'. reveal m g u v = Some g' \<and> shown_set g \<subseteq> shown_set g'
             \<and> (if cell_at (mask g) u v = CHR '' '' then g' = g
                 else (u, v) \<in> shown_set g'
                   \<and> card (inside (xsize g) (ysize g) - shown_set g')
                       < card (inside (xsize g) (ysize g) - shown_set g)))"
proof -
  have 1: "\<exists>b'. Board_reveal (Suc (nat (width b) * nat (height b))) b x y = Some b'"
    using Board_reveal_total[OF assms(1,2), of "Suc (nat (width b) * nat (height b))"]
      card_unrevealed_le[of "width b" "height b" "revealed_set b"] by simp
  have 2: "\<exists>g'. reveal (Suc (nat (xsize g) * nat (ysize g))) g u v = Some g'"
    using reveal_total[OF assms(3,4), of "Suc (nat (xsize g) * nat (ysize g))"]
      card_unrevealed_le[of "xsize g" "ysize g" "shown_set g"] by simp
  obtain k where n: "n = Suc k" using assms(5) by (cases n) simp_all
  obtain j where m: "m = Suc j" using assms(6) by (cases m) simp_all
  from Board_reveal_total[OF assms(1,2,5)] obtain b' where b': "Board_reveal n b x y = Some b'" by blast
  note s = Board_reveal_sets[OF assms(1,2) b']
  have 3: "revealed_set b \<subseteq> revealed_set b'
      \<and> (if revealed (cell_at (grid b) x y) \<or> MARKS ! mark (cell_at (grid b) x y) \<noteq> HashGlyph
          then b' = b
          else (x, y) \<in> revealed_set b'
            \<and> card (inside (width b) (height b) - revealed_set b')
                < card (inside (width b) (height b) - revealed_set b))"
  proof (cases "revealed (cell_at (grid b) x y) \<or> MARKS ! mark (cell_at (grid b) x y) \<noteq> HashGlyph")
    case True
    with b' n have "b' = b" by (simp add: Board_reveal_Suc del: Board_reveal.simps)
    with True show ?thesis by simp
  next
    case False
    then have nr: "(x, y) \<notin> revealed_set b" "(x, y) \<notin> marked_set b"
      using assms(2) by (simp_all add: revealed_set_def marked_set_def)
    then have "(x, y) \<in> reach (width b) (height b) (marked_set b) (zero_set b) (revealed_set b) (x, y)"
      by (rule reach.start)
    with s have in': "(x, y) \<in> revealed_set b'" and sub: "revealed_set b \<subseteq> revealed_set b'" by auto
    from card_less_after[OF _ nr(1) in' sub, of "width b" "height b"] assms(2) in' sub False
    show ?thesis by simp
  qed
  from reveal_total[OF assms(3,4,6)] obtain g' where g': "reveal m g u v = Some g'" by blast
  note t = reveal_sets[OF assms(3,4) g']
  have 4: "shown_set g \<subseteq> shown_set g'
      \<and> (if cell_at (mask g) u v = CHR '' '' then g' = g
          else (u, v) \<in> shown_set g'
            \<and> card (inside (xsize g) (ysize g) - shown_set g')
                < card (inside (xsize g) (ysize g) - shown_set g))"
  proof (cases "cell_at (mask g) u v = CHR '' ''")
    case True
    with g' m have "g' = g" by (simp add: reveal_Suc del: reveal.simps)
    with True show ?thesis by simp
  next
    case False
    then have nr: "(u, v) \<notin> shown_set g" using assms(4) by (simp add: shown_set_def)
    then have "(u, v) \<in> reach (xsize g) (ysize g) {} (blank_set g) (shown_set g) (u, v)"
      by (intro reach.start) simp_all
    with t have in': "(u, v) \<in> shown_set g'" and sub: "shown_set g \<subseteq> shown_set g'" by auto
    from card_less_after[OF _ nr in' sub, of "xsize g" "ysize g"] assms(4) in' sub False
    show ?thesis by simp
  qed
  from 1 2 3 4 b' g' show ?thesis by blast
qed

theorem reveal_terminates_witness:
  "wf_grid 1 1 [[new_Cell]] \<and> inb 1 1 0 0 \<and> wf_grid 1 1 [[CHR ''#'']]
   \<and> card (inside 1 1 - revealed_set \<lparr>width = 1, height = 1, mines = 0, grid = [[new_Cell]]\<rparr>) < 2
   \<and> card (inside 1 1 - shown_set (new_world 1 1 0)) < 2
   \<and> (\<exists>b'. Board_reveal 2 \<lparr>width = 1, height = 1, mines = 0, grid = [[new_Cell]]\<rparr> 0 0 = Some b'
          \<and> (0, 0) \<in> revealed_set b')
   \<and> (\<exists>g'. reveal 2 (new_world 1 1 0) 0 0 = Some g' \<and> (0, 0) \<in> shown_set g')"
proof -
  let ?b = "\<lparr>width = 1, height = 1, mines = 0, grid = [[new_Cell]]\<rparr>"
  let ?g = "new_world 1 1 0"
  have h1: "wf_grid (width ?b) (height ?b) (grid ?b)" by (simp add: wf_grid_def)
  have h2: "inb (width ?b) (height ?b) 0 0" by (simp add: inb_def)
  have h3: "wf_grid (xsize ?g) (ysize ?g) (mask ?g)"
    by (simp add: new_world_def wf_new_grid)
  have h4: "inb (xsize ?g) (ysize ?g) 0 0" by (simp add: new_world_def inb_def)
  have h5: "card (inside (width ?b) (height ?b) - revealed_set ?b) < 2"
    using card_unrevealed_le[of 1 1 "revealed_set ?b"] by simp
  have h6: "card (inside (xsize ?g) (ysize ?g) - shown_set ?g) < 2"
    using card_unrevealed_le[of 1 1 "shown_set ?g"] by (simp add: new_world_def)
  have r: "\<not> (revealed (cell_at (grid ?b) 0 0) \<or> MARKS ! mark (cell_at (grid ?b) 0 0) \<noteq> HashGlyph)"
    by (simp add: cell_at_def new_Cell_def MARKS_def)
  have q: "cell_at (mask ?g) 0 0 \<noteq> CHR '' ''"
    by (simp add: new_world_def new_grid_def cell_at_def)
  have m: "mask ?g = [[CHR ''#'']]" "xsize ?g = 1" "ysize ?g = 1"
    by (simp_all add: new_world_def new_grid_def)
  from reveal_terminates[OF h1 h2 h3 h4 h5 h6] r q
  have "(\<exists>b'. Board_reveal 2 ?b 0 0 = Some b' \<and> (0, 0) \<in> revealed_set b')
      \<and> (\<exists>g'. reveal 2 ?g 0 0 = Some g' \<and> (0, 0) \<in> shown_set g')"
    by (simp only: if_False) blast
  with h1 h2 h3 h5 h6 m show ?thesis by simp
qed

section \<open>Marked and revealed cells under the reveals\<close>

lemma Board_reveal_blocked:
  "revealed (cell_at (grid b) x y) \<or> MARKS ! mark (cell_at (grid b) x y) \<noteq> HashGlyph
   \<Longrightarrow> Board_reveal (Suc n) b x y = Some b"
  by (simp add: Board_reveal_Suc del: Board_reveal.simps)

lemma reveal_shown: "cell_at (mask g) x y = CHR '' '' \<Longrightarrow> reveal (Suc n) g x y = Some g"
  by (simp add: reveal_Suc del: reveal.simps)

lemma reveal_reveals:
  assumes "wf_grid (xsize g) (ysize g) (mask g)" "inb (xsize g) (ysize g) x y"
    and "reveal n g x y = Some g'"
  shows "cell_at (mask g') x y = CHR '' ''"
proof (cases "cell_at (mask g) x y = CHR '' ''")
  case True
  obtain k where "n = Suc k" using assms(3) by (cases n) simp_all
  with True assms(3) show ?thesis by (simp add: reveal_Suc del: reveal.simps)
next
  case False
  then have "(x, y) \<notin> shown_set g" using assms(2) by (simp add: shown_set_def)
  then have "(x, y) \<in> reach (xsize g) (ysize g) {} (blank_set g) (shown_set g) (x, y)"
    by (intro reach.start) simp_all
  with reveal_sets[OF assms] have "(x, y) \<in> shown_set g'" by simp
  then show ?thesis by (simp add: shown_set_def)
qed

text \<open>
  C3, as the code has it. In nyankosweeper, \<^verbatim>\<open>Board.reveal\<close> on a cell whose mark is the
  flag or the question mark, or that is revealed already, returns the board unchanged.
  In minesweeper.py, \<^verbatim>\<open>reveal\<close> on a cell that is revealed already returns the globals
  unchanged, but it never looks at a mark: called on a cell whose mask is the flag or
  the question mark, it returns with that cell revealed.
\<close>

theorem reveal_and_marks:
  assumes "wf_Board b" and "inb (width b) (height b) x y"
    and "mark (cell_at (grid b) x y) = 1 \<or> mark (cell_at (grid b) x y) = 2
         \<or> revealed (cell_at (grid b) x y)"
    and "cell_at (mask g0) p q = CHR '' ''"
    and "wf_grid (xsize g) (ysize g) (mask g)" and "inb (xsize g) (ysize g) u v"
    and "cell_at (mask g) u v = CHR ''@'' \<or> cell_at (mask g) u v = CHR ''?''"
  shows "Board_reveal (Suc n) b x y = Some b
       \<and> reveal (Suc n) g0 p q = Some g0
       \<and> (\<exists>g'. reveal (Suc (nat (xsize g) * nat (ysize g))) g u v = Some g'
             \<and> cell_at (mask g') u v = CHR '' '')"
proof -
  have "revealed (cell_at (grid b) x y) \<or> MARKS ! mark (cell_at (grid b) x y) \<noteq> HashGlyph"
    using assms(3) by (auto simp: MARKS_def)
  then have 1: "Board_reveal (Suc n) b x y = Some b" by (rule Board_reveal_blocked)
  have 2: "reveal (Suc n) g0 p q = Some g0" using assms(4) by (rule reveal_shown)
  from reveal_total[OF assms(5,6), of "Suc (nat (xsize g) * nat (ysize g))"]
    card_unrevealed_le[of "xsize g" "ysize g" "shown_set g"]
  obtain g' where g': "reveal (Suc (nat (xsize g) * nat (ysize g))) g u v = Some g'" by auto
  from reveal_reveals[OF assms(5,6) g'] g' 1 2 show ?thesis by blast
qed

theorem reveal_and_marks_witness:
  "wf_Board \<lparr>width = 1, height = 1, mines = 0, grid = [[new_Cell\<lparr>mark := 1\<rparr>]]\<rparr>
   \<and> inb 1 1 0 0
   \<and> wf_grid 1 1 [[CHR ''@'']]
   \<and> Board_reveal 1 \<lparr>width = 1, height = 1, mines = 0, grid = [[new_Cell\<lparr>mark := 1\<rparr>]]\<rparr> 0 0
       = Some \<lparr>width = 1, height = 1, mines = 0, grid = [[new_Cell\<lparr>mark := 1\<rparr>]]\<rparr>
   \<and> reveal 1 \<lparr>xsize = 1, ysize = 1, nmines = 0, vvram = [[VInt 0]], mask = [[CHR '' '']]\<rparr> 0 0
       = Some \<lparr>xsize = 1, ysize = 1, nmines = 0, vvram = [[VInt 0]], mask = [[CHR '' '']]\<rparr>
   \<and> (\<exists>g'. reveal 2 \<lparr>xsize = 1, ysize = 1, nmines = 0, vvram = [[VInt 0]], mask = [[CHR ''@'']]\<rparr> 0 0 = Some g'
          \<and> cell_at (mask g') 0 0 = CHR '' '')"
proof -
  let ?b = "\<lparr>width = 1, height = 1, mines = 0, grid = [[new_Cell\<lparr>mark := 1\<rparr>]]\<rparr>"
  let ?gs = "\<lparr>xsize = 1, ysize = 1, nmines = 0, vvram = [[VInt 0]], mask = [[CHR '' '']]\<rparr>"
  let ?g = "\<lparr>xsize = 1, ysize = 1, nmines = 0, vvram = [[VInt 0]], mask = [[CHR ''@'']]\<rparr>"
  have h1: "wf_Board ?b" by (simp add: wf_Board_def wf_grid_def new_Cell_def MARKS_def)
  have h2: "inb (width ?b) (height ?b) 0 0" by (simp add: inb_def)
  have h3: "mark (cell_at (grid ?b) 0 0) = 1 \<or> mark (cell_at (grid ?b) 0 0) = 2
         \<or> revealed (cell_at (grid ?b) 0 0)" by (simp add: cell_at_def)
  have h4: "cell_at (mask ?gs) 0 0 = CHR '' ''" by (simp add: cell_at_def)
  have h5: "wf_grid (xsize ?g) (ysize ?g) (mask ?g)" by (simp add: wf_grid_def)
  have h6: "inb (xsize ?g) (ysize ?g) 0 0" by (simp add: inb_def)
  have h7: "cell_at (mask ?g) 0 0 = CHR ''@'' \<or> cell_at (mask ?g) 0 0 = CHR ''?''"
    by (simp add: cell_at_def)
  from reveal_and_marks[OF h1 h2 h3 h4 h5 h6 h7, of 0]
  have "Board_reveal 1 ?b 0 0 = Some ?b \<and> reveal 1 ?gs 0 0 = Some ?gs
      \<and> (\<exists>g'. reveal 2 ?g 0 0 = Some g' \<and> cell_at (mask g') 0 0 = CHR '' '')"
    by (simp del: Board_reveal.simps reveal.simps add: numeral_2_eq_2)
  with h1 h2 h5 show ?thesis by (simp del: Board_reveal.simps reveal.simps)
qed

text \<open>
  The claim fails in minesweeper.py: on a field of one cell that carries the flag,
  \<^verbatim>\<open>reveal\<close> reveals the cell.
\<close>

theorem reveal_flagged_counterexample:
  "reveal 2 \<lparr>xsize = 1, ysize = 1, nmines = 0, vvram = [[VInt 0]], mask = [[CHR ''@'']]\<rparr> 0 0
     = Some \<lparr>xsize = 1, ysize = 1, nmines = 0, vvram = [[VInt 0]], mask = [[CHR '' '']]\<rparr>"
  by (simp add: numeral_2_eq_2 cell_at_def update_at_def)

section \<open>The win predicates\<close>

lemma fold_add_int: "fold (\<lambda>y c. c + f y) ys (c0 :: int) = c0 + sum_list (map f ys)"
  by (induction ys arbitrary: c0) simp_all

lemma set_py_range: "set (py_range n) = {0..<n}"
proof -
  have "int ` {0..<nat n} = {0..<n}"
  proof (intro set_eqI iffI)
    fix x assume "x \<in> int ` {0..<nat n}"
    then show "x \<in> {0..<n}" by auto
  next
    fix x assume "x \<in> {0..<n}"
    then have "nat x \<in> {0..<nat n}" "x = int (nat x)" by auto
    then show "x \<in> int ` {0..<nat n}" by (rule rev_image_eqI)
  qed
  then show ?thesis by (simp add: py_range_def)
qed

lemma distinct_py_range: "distinct (py_range n)"
  by (simp add: py_range_def distinct_map inj_on_def)

lemma sum_list_py_range: "sum_list (map f (py_range n)) = sum f {0..<n}"
  by (simp add: sum_list_distinct_conv_sum_set distinct_py_range set_py_range)

lemma count_grid:
  "fold (\<lambda>x. fold (\<lambda>y c. c + (if P x y then 1 else 0)) (py_range h)) (py_range w) (0 :: int)
     = int (card {c \<in> inside w h. P (fst c) (snd c)})"
proof -
  have inner: "fold (\<lambda>y c. c + (if P x y then 1 else 0)) (py_range h) = (\<lambda>c :: int. c + (\<Sum>y\<in>{0..<h}. if P x y then 1 else 0))" for x
    by (rule ext) (simp add: fold_add_int sum_list_py_range)
  have "fold (\<lambda>x. fold (\<lambda>y c. c + (if P x y then 1 else 0)) (py_range h)) (py_range w) (0 :: int)
      = (\<Sum>x\<in>{0..<w}. \<Sum>y\<in>{0..<h}. if P x y then 1 else 0)"
    by (simp add: inner fold_add_int sum_list_py_range)
  also have "\<dots> = (\<Sum>c\<in>{0..<w} \<times> {0..<h}. if P (fst c) (snd c) then 1 else 0)"
    by (simp add: sum.cartesian_product case_prod_beta)
  also have "\<dots> = int (card {c \<in> {0..<w} \<times> {0..<h}. P (fst c) (snd c)})"
    by (simp add: sum.If_cases Int_def)
  finally show ?thesis by (simp add: inside_eq)
qed

lemma endcheck_iff: "endcheck g \<longleftrightarrow> int (card (covered_set g)) = nmines g"
  unfolding endcheck_def covered_set_def
  by (simp add: count_grid[of "\<lambda>x y. cell_at (mask g) x y = CHR ''#'' \<or> cell_at (mask g) x y = CHR ''@''"] aca_def)

lemma Board_all_clear_mine:
  assumes "wf_Board b" "inb (width b) (height b) x y" "mine (cell_at (grid b) x y)"
  shows "Board_all_clear (b\<lparr>grid := update_at (grid b) x y (\<lambda>c. c\<lparr>revealed := r\<rparr>)\<rparr>) = Board_all_clear b"
proof -
  have wf: "wf_grid (width b) (height b) (grid b)" using assms(1) by (rule wf_Board_grid)
  have wf': "wf_grid (width b) (height b) (update_at (grid b) x y (\<lambda>c. c\<lparr>revealed := r\<rparr>))"
    using wf by simp
  have "revealed (cell_at (update_at (grid b) x y (\<lambda>c. c\<lparr>revealed := r\<rparr>)) p q)
        \<or> mine (cell_at (update_at (grid b) x y (\<lambda>c. c\<lparr>revealed := r\<rparr>)) p q)
      \<longleftrightarrow> revealed (cell_at (grid b) p q) \<or> mine (cell_at (grid b) p q)"
    if "inb (width b) (height b) p q" for p q
    using cell_at_update[OF wf assms(2) that] assms(3) by auto
  then show ?thesis
    unfolding Board_all_clear_def
    using list_all_concat_cell_at[OF wf, of "\<lambda>cell. revealed cell \<or> mine cell"]
      list_all_concat_cell_at[OF wf', of "\<lambda>cell. revealed cell \<or> mine cell"]
    by simp
qed

lemma Board_all_clear_spec:
  assumes "wf_Board b"
  shows "(Board_all_clear b \<longleftrightarrow>
            (\<forall>x y. inb (width b) (height b) x y \<longrightarrow> \<not> mine (cell_at (grid b) x y)
               \<longrightarrow> revealed (cell_at (grid b) x y)))
       \<and> (\<forall>x y r. inb (width b) (height b) x y \<longrightarrow> mine (cell_at (grid b) x y) \<longrightarrow>
            Board_all_clear (b\<lparr>grid := update_at (grid b) x y (\<lambda>c. c\<lparr>revealed := r\<rparr>)\<rparr>)
              = Board_all_clear b)"
  using Board_all_clear_iff[OF assms] Board_all_clear_mine[OF assms] by blast

text \<open>
  C1 at the input where minesweeper.py departs from it. The field has its real size and
  one mine; every cell but \<open>(0, 0)\<close> is revealed and \<open>(0, 0)\<close>, where the mine lies, carries
  the question mark. Every cell that is not a mine is revealed, and \<^verbatim>\<open>endcheck\<close> is false:
  it counts the cells whose mask is the number sign or the at sign, and the question
  mark is neither.
\<close>

theorem endcheck_question_mark:
  "\<not> endcheck \<lparr>xsize = 40, ysize = 23, nmines = 1,
       vvram = update_at (new_grid 40 23 (VInt 0)) 0 0 (\<lambda>_. VStr ''*''),
       mask = update_at (new_grid 40 23 (CHR '' '')) 0 0 (\<lambda>_. CHR ''?'')\<rparr>"
proof -
  let ?g = "\<lparr>xsize = 40, ysize = 23, nmines = 1,
       vvram = update_at (new_grid 40 23 (VInt 0)) 0 0 (\<lambda>_. VStr ''*''),
       mask = update_at (new_grid 40 23 (CHR '' '')) 0 0 (\<lambda>_. CHR ''?'')\<rparr>"
  have "cell_at (mask ?g) p q \<noteq> CHR ''#'' \<and> cell_at (mask ?g) p q \<noteq> CHR ''@''"
    if "inb 40 23 p q" for p q
    using cell_at_update[OF wf_new_grid[of 40 23 "CHR '' ''"] _ that, of 0 0 "\<lambda>_. CHR ''?''"]
      cell_at_new_grid[OF that, of "CHR '' ''"]
    by (simp add: inb_def)
  then have "covered_set ?g = {}"
    by (auto simp: covered_set_def inside_def)
  then show ?thesis by (simp add: endcheck_iff)
qed

section \<open>Loops over the whole grid\<close>

lemma fold_snoc: "fold f (xs @ [x]) s = f x (fold f xs s)"
  by simp

lemma grid_row_loop:
  fixes stp :: "int \<Rightarrow> int \<Rightarrow> 's \<Rightarrow> 's" and get :: "'s \<Rightarrow> 'a list list"
  assumes stp: "\<And>s y. I s \<Longrightarrow> wf_grid w h (get s) \<Longrightarrow> inb w h x y \<Longrightarrow>
      I (stp x y s) \<and> get (stp x y s) = update_at (get s) x y (upd x y)"
    and "I s0" "wf_grid w h (get s0)" "0 \<le> x" "x < w"
    and "distinct ys" "set ys \<subseteq> {0..<h}"
  shows "I (fold (stp x) ys s0) \<and> wf_grid w h (get (fold (stp x) ys s0))
     \<and> (\<forall>p q. inb w h p q \<longrightarrow> cell_at (get (fold (stp x) ys s0)) p q
           = (if p = x \<and> q \<in> set ys then upd p q (cell_at (get s0) p q) else cell_at (get s0) p q))"
  using assms(6,7)
proof (induction ys rule: rev_induct)
  case Nil
  then show ?case using assms(2,3) by simp
next
  case (snoc y ys)
  let ?s = "fold (stp x) ys s0"
  from snoc have IH: "I ?s" "wf_grid w h (get ?s)"
    "\<And>p q. inb w h p q \<Longrightarrow> cell_at (get ?s) p q
           = (if p = x \<and> q \<in> set ys then upd p q (cell_at (get s0) p q) else cell_at (get s0) p q)"
    by auto
  have ib: "inb w h x y" using snoc.prems assms(4,5) by (auto simp: inb_def)
  from stp[OF IH(1,2) ib] have st: "I (stp x y ?s)" "get (stp x y ?s) = update_at (get ?s) x y (upd x y)"
    by auto
  have ny: "y \<notin> set ys" using snoc.prems by simp
  have "cell_at (get (stp x y ?s)) p q
      = (if p = x \<and> q \<in> set (ys @ [y]) then upd p q (cell_at (get s0) p q) else cell_at (get s0) p q)"
    if pq: "inb w h p q" for p q
    using cell_at_update[OF IH(2) ib pq, of "upd x y"] IH(3)[OF pq] IH(3)[OF ib] ny st(2) by auto
  with st IH(2) show ?case by (simp add: fold_snoc del: fold_append)
qed

lemma grid_loop:
  fixes stp :: "int \<Rightarrow> int \<Rightarrow> 's \<Rightarrow> 's" and get :: "'s \<Rightarrow> 'a list list"
  assumes stp: "\<And>s x y. I s \<Longrightarrow> wf_grid w h (get s) \<Longrightarrow> inb w h x y \<Longrightarrow>
      I (stp x y s) \<and> get (stp x y s) = update_at (get s) x y (upd x y)"
    and "I s0" "wf_grid w h (get s0)"
    and "distinct xs" "set xs \<subseteq> {0..<w}"
  shows "I (fold (\<lambda>x. fold (stp x) (py_range h)) xs s0)
     \<and> wf_grid w h (get (fold (\<lambda>x. fold (stp x) (py_range h)) xs s0))
     \<and> (\<forall>p q. inb w h p q \<longrightarrow> cell_at (get (fold (\<lambda>x. fold (stp x) (py_range h)) xs s0)) p q
           = (if p \<in> set xs then upd p q (cell_at (get s0) p q) else cell_at (get s0) p q))"
  using assms(4,5)
proof (induction xs rule: rev_induct)
  case Nil
  then show ?case using assms(2,3) by simp
next
  case (snoc x xs)
  let ?s = "fold (\<lambda>x. fold (stp x) (py_range h)) xs s0"
  from snoc have IH: "I ?s" "wf_grid w h (get ?s)"
    "\<And>p q. inb w h p q \<Longrightarrow> cell_at (get ?s) p q
           = (if p \<in> set xs then upd p q (cell_at (get s0) p q) else cell_at (get s0) p q)"
    by auto
  have x: "0 \<le> x" "x < w" "x \<notin> set xs" using snoc.prems by auto
  note r = grid_row_loop[of I w h get x stp upd ?s "py_range h", OF stp IH(1,2) x(1,2) distinct_py_range]
  have r': "I (fold (stp x) (py_range h) ?s)" "wf_grid w h (get (fold (stp x) (py_range h) ?s))"
    "\<And>p q. inb w h p q \<Longrightarrow> cell_at (get (fold (stp x) (py_range h) ?s)) p q
       = (if p = x \<and> q \<in> set (py_range h) then upd p q (cell_at (get ?s) p q) else cell_at (get ?s) p q)"
    using r by (simp_all add: set_py_range)
  have "cell_at (get (fold (stp x) (py_range h) ?s)) p q
       = (if p \<in> set (xs @ [x]) then upd p q (cell_at (get s0) p q) else cell_at (get s0) p q)"
    if pq: "inb w h p q" for p q
    using r'(3)[OF pq] IH(3)[OF pq] x(3) pq by (auto simp: set_py_range inb_def)
  with r'(1,2) show ?case by (simp add: fold_snoc del: fold_append)
qed

lemma grid_loop_all:
  fixes stp :: "int \<Rightarrow> int \<Rightarrow> 's \<Rightarrow> 's" and get :: "'s \<Rightarrow> 'a list list"
  assumes stp: "\<And>s x y. I s \<Longrightarrow> wf_grid w h (get s) \<Longrightarrow> inb w h x y \<Longrightarrow>
      I (stp x y s) \<and> get (stp x y s) = update_at (get s) x y (upd x y)"
    and "I s0" "wf_grid w h (get s0)"
  shows "I (fold (\<lambda>x. fold (stp x) (py_range h)) (py_range w) s0)
     \<and> wf_grid w h (get (fold (\<lambda>x. fold (stp x) (py_range h)) (py_range w) s0))
     \<and> (\<forall>p q. inb w h p q \<longrightarrow> cell_at (get (fold (\<lambda>x. fold (stp x) (py_range h)) (py_range w) s0)) p q
           = upd p q (cell_at (get s0) p q))"
  using grid_loop[of I w h get stp upd s0 "py_range w", OF stp assms(2,3) distinct_py_range]
  by (simp add: set_py_range inb_def)

section \<open>Counting the mines around a cell\<close>

lemma set_offsets: "set offsets = {-1, 0, 1} \<times> {-1, 0, 1}"
  by (simp add: offsets_def)

lemma distinct_offsets: "distinct offsets"
  by (simp add: offsets_def)

lemma offsets_image:
  "(\<lambda>d. (x + fst d, y + snd d)) ` {d \<in> set offsets. Q (x + fst d, y + snd d)}
     = {c. \<bar>fst c - x\<bar> \<le> 1 \<and> \<bar>snd c - y\<bar> \<le> 1 \<and> Q c}"
proof (intro set_eqI iffI)
  fix c assume "c \<in> (\<lambda>d. (x + fst d, y + snd d)) ` {d \<in> set offsets. Q (x + fst d, y + snd d)}"
  then show "c \<in> {c. \<bar>fst c - x\<bar> \<le> 1 \<and> \<bar>snd c - y\<bar> \<le> 1 \<and> Q c}"
    by (auto simp: set_offsets)
next
  fix c assume c: "c \<in> {c. \<bar>fst c - x\<bar> \<le> 1 \<and> \<bar>snd c - y\<bar> \<le> 1 \<and> Q c}"
  let ?d = "(fst c - x, snd c - y)"
  have "fst c - x \<in> {-1, 0, 1}" "snd c - y \<in> {-1, 0, 1}" using c by auto
  then have "?d \<in> {-1, 0, 1} \<times> {-1, 0, 1}" by (intro SigmaI) simp_all
  then have "?d \<in> set offsets" by (simp only: set_offsets)
  moreover have "Q (x + fst ?d, y + snd ?d)" "c = (x + fst ?d, y + snd ?d)" using c by auto
  ultimately show "c \<in> (\<lambda>d. (x + fst d, y + snd d)) ` {d \<in> set offsets. Q (x + fst d, y + snd d)}"
    by (intro image_eqI[where x = ?d]) auto
qed

lemma offsets_count:
  "(\<Sum>d\<in>set offsets. if Q (x + fst d, y + snd d) then 1 else 0)
     = card {c. \<bar>fst c - x\<bar> \<le> 1 \<and> \<bar>snd c - y\<bar> \<le> 1 \<and> Q c}"
proof -
  have "(\<Sum>d\<in>set offsets. if Q (x + fst d, y + snd d) then 1 else 0)
      = card {d \<in> set offsets. Q (x + fst d, y + snd d)}"
    by (simp add: sum.If_cases Int_def)
  also have "\<dots> = card ((\<lambda>d. (x + fst d, y + snd d)) ` {d \<in> set offsets. Q (x + fst d, y + snd d)})"
    by (rule card_image[symmetric]) (auto simp: inj_on_def)
  finally show ?thesis by (simp only: offsets_image)
qed

lemma adjacent_mines_card:
  "adjacent_mines b x y
     = card {c \<in> neighbours (width b) (height b) x y. mine (cell_at (grid b) (fst c) (snd c))}"
proof -
  let ?Q = "\<lambda>c. c \<noteq> (x, y) \<and> c \<in> inside (width b) (height b) \<and> mine (cell_at (grid b) (fst c) (snd c))"
  have "adjacent_mines b x y
      = sum_list (map (\<lambda>d. if ?Q (x + fst d, y + snd d) then 1 else 0) offsets)"
    unfolding adjacent_mines_def offsets_def[symmetric] sum_list_map_filter'
    by (intro arg_cong[where f = sum_list] map_cong refl) (auto simp: inb_def)
  also have "\<dots> = (\<Sum>d\<in>set offsets. if ?Q (x + fst d, y + snd d) then 1 else 0)"
    by (rule sum_list_distinct_conv_sum_set[OF distinct_offsets])
  also have "\<dots> = card {c. \<bar>fst c - x\<bar> \<le> 1 \<and> \<bar>snd c - y\<bar> \<le> 1 \<and> ?Q c}"
    by (rule offsets_count)
  also have "{c. \<bar>fst c - x\<bar> \<le> 1 \<and> \<bar>snd c - y\<bar> \<le> 1 \<and> ?Q c}
      = {c \<in> neighbours (width b) (height b) x y. mine (cell_at (grid b) (fst c) (snd c))}"
    by (auto simp: neighbours_def)
  finally show ?thesis .
qed

section \<open>Placing the mines\<close>

lemma finite_mine_set: "finite (mine_set b)"
  by (rule finite_subset[OF _ finite_inside[of "width b" "height b"]]) (auto simp: mine_set_def)

lemma place_mine_set:
  assumes "wf_grid (width b) (height b) (grid b)" "inb (width b) (height b) x y"
  shows "mine_set (b\<lparr>grid := update_at (grid b) x y (\<lambda>c. c\<lparr>mine := True\<rparr>)\<rparr>) = insert (x, y) (mine_set b)"
  using assms cell_at_update[OF assms(1) assms(2)]
  by (auto simp: mine_set_def inside_def)

lemma place_mines_loop_result:
  assumes "wf_grid (width b) (height b) (grid b)" "set ds \<subseteq> inside (width b) (height b)"
    and "place_mines_loop b placed ds = Some (b', ds')"
  shows "width b' = width b \<and> height b' = height b \<and> mines b' = mines b
       \<and> wf_grid (width b) (height b) (grid b')
       \<and> int (card (mine_set b')) = int (card (mine_set b)) + max 0 (mines b - placed)
       \<and> (\<forall>c \<in> inside (width b) (height b).
            cell_at (grid b') (fst c) (snd c)
              = (cell_at (grid b) (fst c) (snd c))\<lparr>mine := mine (cell_at (grid b') (fst c) (snd c))\<rparr>)"
  using assms
proof (induction b placed ds rule: place_mines_loop.induct)
  case (1 b placed)
  then show ?case by (simp split: if_splits)
next
  case (2 b placed x y ds)
  have ib: "inb (width b) (height b) x y" using "2.prems"(2) by simp
  show ?case
  proof (cases "placed < mines b")
    case False
    with "2.prems" show ?thesis by simp
  next
    case True
    show ?thesis
    proof (cases "mine (cell_at (grid b) x y)")
      case m: True
      with True "2.prems" have "place_mines_loop b placed ds = Some (b', ds')" by simp
      from "2.IH"(2)[OF True _ "2.prems"(1) _ this] m "2.prems"(2) show ?thesis by simp
    next
      case False
      let ?b1 = "b\<lparr>grid := update_at (grid b) x y (\<lambda>c. c\<lparr>mine := True\<rparr>)\<rparr>"
      from False True "2.prems" have r: "place_mines_loop ?b1 (placed + 1) ds = Some (b', ds')" by simp
      have wf1: "wf_grid (width ?b1) (height ?b1) (grid ?b1)" using "2.prems"(1) by simp
      have sub: "set ds \<subseteq> inside (width ?b1) (height ?b1)" using "2.prems"(2) by simp
      note ih = "2.IH"(1)[OF True _ wf1 sub r]
      have ms: "mine_set ?b1 = insert (x, y) (mine_set b)"
        using place_mine_set[OF "2.prems"(1) ib] .
      have nin: "(x, y) \<notin> mine_set b" using False by (simp add: mine_set_def)
      have c1: "int (card (mine_set ?b1)) = int (card (mine_set b)) + 1"
        using ms nin finite_mine_set[of b] by simp
      have cells: "cell_at (grid ?b1) (fst c) (snd c)
          = (cell_at (grid b) (fst c) (snd c))\<lparr>mine := mine (cell_at (grid ?b1) (fst c) (snd c))\<rparr>"
        if "c \<in> inside (width b) (height b)" for c
        using cell_at_update[OF "2.prems"(1) ib, of "fst c" "snd c"] that by (auto simp: inside_def)
      have "cell_at (grid b') (fst c) (snd c)
              = (cell_at (grid b) (fst c) (snd c))\<lparr>mine := mine (cell_at (grid b') (fst c) (snd c))\<rparr>"
        if c: "c \<in> inside (width b) (height b)" for c
      proof -
        from ih c have "cell_at (grid b') (fst c) (snd c)
              = (cell_at (grid ?b1) (fst c) (snd c))\<lparr>mine := mine (cell_at (grid b') (fst c) (snd c))\<rparr>"
          using False by simp
        also have "\<dots> = (cell_at (grid b) (fst c) (snd c))\<lparr>mine := mine (cell_at (grid b') (fst c) (snd c))\<rparr>"
          by (subst cells[OF c]) simp
        finally show ?thesis .
      qed
      moreover have "int (card (mine_set b')) = int (card (mine_set b)) + max 0 (mines b - placed)"
        using ih c1 True False by simp
      ultimately show ?thesis using ih False by simp
    qed
  qed
qed

lemma place_mines_loop_total:
  assumes "wf_grid (width b) (height b) (grid b)" "set ds \<subseteq> inside (width b) (height b)"
    and "mines b - placed \<le> int (card (set ds - mine_set b))"
  shows "\<exists>r. place_mines_loop b placed ds = Some r"
  using assms
proof (induction b placed ds rule: place_mines_loop.induct)
  case (1 b placed)
  then show ?case by simp
next
  case (2 b placed x y ds)
  have ib: "inb (width b) (height b) x y" using "2.prems"(2) by simp
  show ?case
  proof (cases "placed < mines b")
    case False
    then show ?thesis by simp
  next
    case True
    show ?thesis
    proof (cases "mine (cell_at (grid b) x y)")
      case m: True
      then have "(x, y) \<in> mine_set b" using ib by (simp add: mine_set_def)
      then have "set ((x, y) # ds) - mine_set b = set ds - mine_set b" by auto
      with "2.prems" have "mines b - placed \<le> int (card (set ds - mine_set b))" by simp
      from "2.IH"(2)[OF True _ "2.prems"(1) _ this] m "2.prems"(2) True show ?thesis by simp
    next
      case False
      let ?b1 = "b\<lparr>grid := update_at (grid b) x y (\<lambda>c. c\<lparr>mine := True\<rparr>)\<rparr>"
      have wf1: "wf_grid (width ?b1) (height ?b1) (grid ?b1)" using "2.prems"(1) by simp
      have sub: "set ds \<subseteq> inside (width ?b1) (height ?b1)" using "2.prems"(2) by simp
      have ms: "mine_set ?b1 = insert (x, y) (mine_set b)"
        using place_mine_set[OF "2.prems"(1) ib] .
      have "set ((x, y) # ds) - mine_set b \<subseteq> insert (x, y) (set ds - mine_set ?b1)"
        using ms by auto
      then have "card (set ((x, y) # ds) - mine_set b) \<le> card (insert (x, y) (set ds - mine_set ?b1))"
        by (intro card_mono) auto
      also have "\<dots> \<le> Suc (card (set ds - mine_set ?b1))" by (rule card_insert_le_m1) simp_all
      finally have "mines ?b1 - (placed + 1) \<le> int (card (set ds - mine_set ?b1))"
        using "2.prems"(3) by simp
      from "2.IH"(1)[OF True _ wf1 sub this] False True show ?thesis by simp
    qed
  qed
qed

section \<open>The adjacent counts of nyankosweeper\<close>

lemma neighbours_inside: "neighbours w h x y \<subseteq> inside w h"
  by (auto simp: neighbours_def)

lemma adjacent_mines_set:
  "adjacent_mines b x y = card (neighbours (width b) (height b) x y \<inter> mine_set b)"
proof -
  have "{c \<in> neighbours (width b) (height b) x y. mine (cell_at (grid b) (fst c) (snd c))}
      = neighbours (width b) (height b) x y \<inter> mine_set b"
    using neighbours_inside[of "width b" "height b" x y] by (auto simp: mine_set_def)
  then show ?thesis by (simp add: adjacent_mines_card)
qed

lemma update_at_cong:
  "f (cell_at g x y) = f' (cell_at g x y) \<Longrightarrow> update_at g x y f = update_at g x y f'"
  by (simp add: update_at_def cell_at_def)

lemma Board_calculate_adjacents_result:
  assumes wf: "wf_grid (width b0) (height b0) (grid b0)"
  shows "width (Board_calculate_adjacents b0) = width b0
       \<and> height (Board_calculate_adjacents b0) = height b0
       \<and> mines (Board_calculate_adjacents b0) = mines b0
       \<and> mine_set (Board_calculate_adjacents b0) = mine_set b0
       \<and> wf_grid (width b0) (height b0) (grid (Board_calculate_adjacents b0))
       \<and> (\<forall>p q. inb (width b0) (height b0) p q \<longrightarrow>
            cell_at (grid (Board_calculate_adjacents b0)) p q
              = (if mine (cell_at (grid b0) p q) then cell_at (grid b0) p q
                 else (cell_at (grid b0) p q)\<lparr>adjacent := adjacent_mines b0 p q\<rparr>))"
proof -
  let ?I = "\<lambda>b. width b = width b0 \<and> height b = height b0 \<and> mines b = mines b0
      \<and> mine_set b = mine_set b0"
  let ?stp = "\<lambda>x y b. if mine (cell_at (grid b) x y) then b
            else b\<lparr>grid := update_at (grid b) x y (\<lambda>c. c\<lparr>adjacent := adjacent_mines b x y\<rparr>)\<rparr>"
  let ?upd = "\<lambda>p q c. if mine c then c else c\<lparr>adjacent := adjacent_mines b0 p q\<rparr>"
  have stp: "?I (?stp x y s) \<and> grid (?stp x y s) = update_at (grid s) x y (?upd x y)"
    if I: "?I s" and wfs: "wf_grid (width b0) (height b0) (grid s)"
      and ib: "inb (width b0) (height b0) x y" for s x y
  proof (cases "mine (cell_at (grid s) x y)")
    case True
    then have "update_at (grid s) x y (?upd x y) = grid s" by (intro update_at_id) simp
    with True I show ?thesis by simp
  next
    case False
    have am: "adjacent_mines s x y = adjacent_mines b0 x y"
      using I by (simp add: adjacent_mines_set)
    let ?s1 = "s\<lparr>grid := update_at (grid s) x y (\<lambda>c. c\<lparr>adjacent := adjacent_mines s x y\<rparr>)\<rparr>"
    have g: "update_at (grid s) x y (\<lambda>c. c\<lparr>adjacent := adjacent_mines s x y\<rparr>)
        = update_at (grid s) x y (?upd x y)"
      using False am by (intro update_at_cong) simp
    have wfs': "wf_grid (width s) (height s) (grid s)" using wfs I by simp
    have ib': "inb (width s) (height s) x y" using ib I by simp
    have "mine_set ?s1 = mine_set s"
      using cell_at_update[OF wfs' ib'] by (auto simp: mine_set_def inside_def split: if_splits)
    with False I g show ?thesis by simp
  qed
  have I0: "?I b0" by simp
  note r = grid_loop_all[of ?I "width b0" "height b0" grid ?stp ?upd b0, OF stp I0 wf]
  have eq: "Board_calculate_adjacents b0
      = fold (\<lambda>x. fold (?stp x) (py_range (height b0))) (py_range (width b0)) b0"
    by (simp add: Board_calculate_adjacents_def)
  from r show ?thesis unfolding eq by blast
qed

lemma new_Board_result:
  assumes "new_Board w h n ds = Some (b, ds')" and "set ds \<subseteq> inside w h"
  shows "width b = w \<and> height b = h \<and> mines b = n \<and> wf_Board b
       \<and> int (card (mine_set b)) = max 0 n
       \<and> (\<forall>p q. inb w h p q \<longrightarrow>
            \<not> revealed (cell_at (grid b) p q) \<and> mark (cell_at (grid b) p q) = 0
          \<and> (\<not> mine (cell_at (grid b) p q) \<longrightarrow>
               adjacent (cell_at (grid b) p q)
                 = card {c \<in> neighbours w h p q. mine (cell_at (grid b) (fst c) (snd c))}))"
proof -
  let ?b0 = "\<lparr>width = w, height = h, mines = n, grid = new_grid w h new_Cell\<rparr>"
  from assms(1) obtain b1 where b1: "place_mines_loop ?b0 0 ds = Some (b1, ds')"
    and b: "b = Board_calculate_adjacents b1"
    by (auto simp: new_Board_def Board_place_mines_def split: option.splits)
  have wf0: "wf_grid (width ?b0) (height ?b0) (grid ?b0)" by (simp add: wf_new_grid)
  have ds: "set ds \<subseteq> inside (width ?b0) (height ?b0)" using assms(2) by simp
  note p = place_mines_loop_result[OF wf0 ds b1]
  have m0: "mine_set ?b0 = {}"
    by (auto simp: mine_set_def inside_def cell_at_new_grid new_Cell_def)
  have d1: "width b1 = w" "height b1 = h" "mines b1 = n" and wf1: "wf_grid w h (grid b1)"
    and c1: "int (card (mine_set b1)) = max 0 n" using p m0 by simp_all
  have cell1: "cell_at (grid b1) p q = new_Cell\<lparr>mine := mine (cell_at (grid b1) p q)\<rparr>"
    if "inb w h p q" for p q
  proof -
    have "(p, q) \<in> inside (width ?b0) (height ?b0)" using that by simp
    with p have "cell_at (grid b1) (fst (p, q)) (snd (p, q))
        = (cell_at (grid ?b0) (fst (p, q)) (snd (p, q)))\<lparr>mine := mine (cell_at (grid b1) (fst (p, q)) (snd (p, q)))\<rparr>"
      by blast
    then show ?thesis using cell_at_new_grid[OF that, of new_Cell] by simp
  qed
  have wf1': "wf_grid (width b1) (height b1) (grid b1)" using wf1 d1 by simp
  note a = Board_calculate_adjacents_result[OF wf1']
  have d: "width b = w" "height b = h" "mines b = n" and wfb: "wf_grid w h (grid b)"
    and ms: "mine_set b = mine_set b1"
    using a b d1 by simp_all
  have cell: "cell_at (grid b) p q
      = (if mine (cell_at (grid b1) p q) then cell_at (grid b1) p q
         else (cell_at (grid b1) p q)\<lparr>adjacent := adjacent_mines b1 p q\<rparr>)"
    if "inb w h p q" for p q
    using a b d1 that by simp
  have am: "adjacent_mines b1 p q = card {c \<in> neighbours w h p q. mine (cell_at (grid b) (fst c) (snd c))}" for p q
    using adjacent_mines_set[of b1 p q] adjacent_mines_set[of b p q] adjacent_mines_card[of b p q] ms d d1
    by simp
  have cells: "\<not> revealed (cell_at (grid b) p q) \<and> mark (cell_at (grid b) p q) = 0
          \<and> (\<not> mine (cell_at (grid b) p q) \<longrightarrow>
               adjacent (cell_at (grid b) p q)
                 = card {c \<in> neighbours w h p q. mine (cell_at (grid b) (fst c) (snd c))})"
    if pq: "inb w h p q" for p q
  proof (cases "mine (cell_at (grid b1) p q)")
    case True
    with cell[OF pq] cell1[OF pq] show ?thesis
      by (metis Cell.select_convs(2,3) Cell.surjective Cell.update_convs(1) new_Cell_def)
  next
    case False
    with cell[OF pq] cell1[OF pq] am[of p q] show ?thesis
      by (simp add: new_Cell_def)
  qed
  have "list_all (\<lambda>cell. mark cell < length MARKS) (concat (grid b))"
    using list_all_concat_cell_at[OF wfb, of "\<lambda>cell. mark cell < length MARKS"] cells
    by (simp add: length_MARKS)
  then have "wf_Board b" using wfb d by (simp add: wf_Board_def)
  with d c1 ms cells show ?thesis by simp
qed

section \<open>Placing the mines in minesweeper.py\<close>

lemma finite_star_set: "finite (star_set g)"
  by (rule finite_subset[OF _ finite_inside[of "xsize g" "ysize g"]]) (auto simp: star_set_def)

lemma fresh_field_cell:
  "fresh_field g \<Longrightarrow> inb (xsize g) (ysize g) x y \<Longrightarrow>
   cell_at (vvram g) x y = VInt 0 \<or> cell_at (vvram g) x y = VStr ''*''"
  unfolding fresh_field_def
  using list_all_concat_cell_at[of "xsize g" "ysize g" "vvram g" "\<lambda>v. v = VInt 0 \<or> v = VStr ''*''"]
  by blast

lemma put_star:
  assumes "fresh_field g" "inb (xsize g) (ysize g) x y"
  shows "fresh_field (g\<lparr>vvram := update_at (vvram g) x y (\<lambda>_. VStr ''*'')\<rparr>)
       \<and> star_set (g\<lparr>vvram := update_at (vvram g) x y (\<lambda>_. VStr ''*'')\<rparr>) = insert (x, y) (star_set g)"
proof -
  have wf: "wf_grid (xsize g) (ysize g) (vvram g)" using assms(1) by (simp add: fresh_field_def)
  have wf': "wf_grid (xsize g) (ysize g) (update_at (vvram g) x y (\<lambda>_. VStr ''*''))" using wf by simp
  have "cell_at (update_at (vvram g) x y (\<lambda>_. VStr ''*'')) p q = VInt 0
      \<or> cell_at (update_at (vvram g) x y (\<lambda>_. VStr ''*'')) p q = VStr ''*''"
    if "inb (xsize g) (ysize g) p q" for p q
    using cell_at_update[OF wf assms(2) that] fresh_field_cell[OF assms(1) that] by auto
  then have 1: "fresh_field (g\<lparr>vvram := update_at (vvram g) x y (\<lambda>_. VStr ''*'')\<rparr>)"
    using wf' list_all_concat_cell_at[OF wf', of "\<lambda>v. v = VInt 0 \<or> v = VStr ''*''"]
    by (simp add: fresh_field_def)
  have 2: "star_set (g\<lparr>vvram := update_at (vvram g) x y (\<lambda>_. VStr ''*'')\<rparr>) = insert (x, y) (star_set g)"
    using assms(2) cell_at_update[OF wf assms(2)]
    by (auto simp: star_set_def inside_def split: if_splits)
  from 1 2 show ?thesis by simp
qed

lemma putmine_result:
  assumes "fresh_field g" "set ds \<subseteq> inside (xsize g) (ysize g)" "putmine g ds = Some (g', ds')"
  shows "xsize g' = xsize g \<and> ysize g' = ysize g \<and> nmines g' = nmines g \<and> mask g' = mask g
       \<and> fresh_field g' \<and> card (star_set g') = Suc (card (star_set g))
       \<and> set ds' \<subseteq> inside (xsize g) (ysize g)"
  using assms
proof (induction g ds rule: putmine.induct)
  case (1 g)
  then show ?case by simp
next
  case (2 g x y ds)
  have ib: "inb (xsize g) (ysize g) x y" using "2.prems"(2) by simp
  show ?case
  proof (cases "cell_at (vvram g) x y = VInt 0")
    case True
    then have "(x, y) \<notin> star_set g" by (simp add: star_set_def)
    with True "2.prems" put_star[OF "2.prems"(1) ib] finite_star_set[of g] show ?thesis by auto
  next
    case False
    with "2.prems" "2.IH" show ?thesis by simp
  qed
qed

lemma putmine_total:
  assumes "fresh_field g" "set ds \<subseteq> inside (xsize g) (ysize g)" "0 < card (set ds - star_set g)"
  shows "\<exists>g' ds'. putmine g ds = Some (g', ds') \<and> card (set ds - star_set g) \<le> Suc (card (set ds' - star_set g'))"
  using assms
proof (induction g ds rule: putmine.induct)
  case (1 g)
  then show ?case by simp
next
  case (2 g x y ds)
  have ib: "inb (xsize g) (ysize g) x y" using "2.prems"(2) by simp
  show ?case
  proof (cases "cell_at (vvram g) x y = VInt 0")
    case True
    let ?g1 = "g\<lparr>vvram := update_at (vvram g) x y (\<lambda>_. VStr ''*'')\<rparr>"
    have ss: "star_set ?g1 = insert (x, y) (star_set g)" using put_star[OF "2.prems"(1) ib] by simp
    have "set ((x, y) # ds) - star_set g \<subseteq> insert (x, y) (set ds - star_set ?g1)" using ss by auto
    then have "card (set ((x, y) # ds) - star_set g) \<le> card (insert (x, y) (set ds - star_set ?g1))"
      by (intro card_mono) auto
    also have "\<dots> \<le> Suc (card (set ds - star_set ?g1))" by (rule card_insert_le_m1) simp_all
    finally show ?thesis using True by simp
  next
    case False
    then have "cell_at (vvram g) x y = VStr ''*''" using fresh_field_cell[OF "2.prems"(1) ib] by simp
    then have "(x, y) \<in> star_set g" using ib by (simp add: star_set_def)
    then have eq: "set ((x, y) # ds) - star_set g = set ds - star_set g" by auto
    with "2.prems" "2.IH"[OF False] False show ?thesis by simp
  qed
qed

lemma putmines_iter_result:
  assumes "fresh_field g" "set ds \<subseteq> inside (xsize g) (ysize g)" "putmines_iter k g ds = Some (g', ds')"
  shows "xsize g' = xsize g \<and> ysize g' = ysize g \<and> nmines g' = nmines g \<and> mask g' = mask g
       \<and> fresh_field g' \<and> card (star_set g') = card (star_set g) + k"
  using assms
proof (induction k arbitrary: g ds)
  case 0
  then show ?case by simp
next
  case (Suc k)
  from Suc.prems(3) obtain g1 ds1 where p: "putmine g ds = Some (g1, ds1)"
    and r: "putmines_iter k g1 ds1 = Some (g', ds')"
    by (auto split: option.splits)
  note a = putmine_result[OF Suc.prems(1,2) p]
  have "set ds1 \<subseteq> inside (xsize g1) (ysize g1)" using a by simp
  from Suc.IH[OF _ this r] a show ?case by simp
qed

lemma putmines_iter_total:
  assumes "fresh_field g" "set ds \<subseteq> inside (xsize g) (ysize g)" "k \<le> card (set ds - star_set g)"
  shows "\<exists>r. putmines_iter k g ds = Some r"
  using assms
proof (induction k arbitrary: g ds)
  case 0
  then show ?case by simp
next
  case (Suc k)
  from putmine_total[OF Suc.prems(1,2)] Suc.prems(3)
  obtain g1 ds1 where p: "putmine g ds = Some (g1, ds1)"
    and c: "card (set ds - star_set g) \<le> Suc (card (set ds1 - star_set g1))" by auto
  note a = putmine_result[OF Suc.prems(1,2) p]
  have "set ds1 \<subseteq> inside (xsize g1) (ysize g1)" "fresh_field g1" using a by simp_all
  from Suc.IH[OF this(2,1)] c Suc.prems(3) p show ?case by simp
qed

lemma fresh_new_world: "fresh_field (new_world w h n) \<and> star_set (new_world w h n) = {}"
proof -
  have wf: "wf_grid w h (new_grid w h (VInt 0))" by (rule wf_new_grid)
  have "list_all (\<lambda>v. v = VInt 0 \<or> v = VStr ''*'') (concat (new_grid w h (VInt 0)))"
    using list_all_concat_cell_at[OF wf, of "\<lambda>v. v = VInt 0 \<or> v = VStr ''*''"]
    by (simp add: cell_at_new_grid)
  then show ?thesis
    using wf by (auto simp: fresh_field_def new_world_def star_set_def inside_def cell_at_new_grid)
qed

section \<open>The number of mines placed\<close>

lemma length_py_range: "length (py_range n) = nat n"
  by (simp add: py_range_def)

lemma new_Board_total:
  assumes "set ds \<subseteq> inside w h" "n \<le> int (card (set ds))"
  shows "\<exists>b ds'. new_Board w h n ds = Some (b, ds')"
proof -
  let ?b0 = "\<lparr>width = w, height = h, mines = n, grid = new_grid w h new_Cell\<rparr>"
  have wf0: "wf_grid (width ?b0) (height ?b0) (grid ?b0)" by (simp add: wf_new_grid)
  have ds: "set ds \<subseteq> inside (width ?b0) (height ?b0)" using assms(1) by simp
  have m0: "mine_set ?b0 = {}"
    by (auto simp: mine_set_def inside_def cell_at_new_grid new_Cell_def)
  have "mines ?b0 - 0 \<le> int (card (set ds - mine_set ?b0))" using assms(2) m0 by simp
  from place_mines_loop_total[OF wf0 ds this] show ?thesis
    by (auto simp: new_Board_def Board_place_mines_def)
qed

text \<open>
  C5. The draws of \<^verbatim>\<open>random.randint\<close> are the list \<open>ds\<close>, each draw a cell of the grid.
  Whenever the construction returns, exactly \<open>mine_count\<close> cells are mines (a cell is a
  mine or not, so no cell holds two); and it does return as soon as the draws contain
  \<open>mine_count\<close> different cells. Both programs, \<^verbatim>\<open>Board.__init__\<close> and \<^verbatim>\<open>putmines\<close>.
\<close>

theorem mines_placed:
  assumes "0 \<le> n" and "n < w * h" and "set ds \<subseteq> inside w h" and "nat n \<le> card (set ds)"
  shows "(\<exists>b ds'. new_Board w h n ds = Some (b, ds')
            \<and> width b = w \<and> height b = h \<and> card (mine_set b) = nat n)
       \<and> (\<exists>g ds'. putmines n (new_world w h n) ds = Some (g, ds')
            \<and> xsize g = w \<and> ysize g = h \<and> card (star_set g) = nat n)
       \<and> (\<forall>ds2 b ds'. set ds2 \<subseteq> inside w h \<longrightarrow> new_Board w h n ds2 = Some (b, ds')
            \<longrightarrow> card (mine_set b) = nat n)
       \<and> (\<forall>ds2 g ds'. set ds2 \<subseteq> inside w h \<longrightarrow> putmines n (new_world w h n) ds2 = Some (g, ds')
            \<longrightarrow> card (star_set g) = nat n)"
proof -
  have part: "card (mine_set b) = nat n \<and> width b = w \<and> height b = h"
    if "set ds2 \<subseteq> inside w h" "new_Board w h n ds2 = Some (b, ds')" for ds2 b ds'
  proof -
    from new_Board_result[OF that(2,1)] assms(1)
    have "int (card (mine_set b)) = n" "width b = w" "height b = h" by simp_all
    then show ?thesis by linarith
  qed
  have fw: "fresh_field (new_world w h n)" "star_set (new_world w h n) = {}"
    using fresh_new_world[of w h n] by simp_all
  have dims: "xsize (new_world w h n) = w" "ysize (new_world w h n) = h"
    by (simp_all add: new_world_def)
  have partm: "card (star_set g) = nat n \<and> xsize g = w \<and> ysize g = h"
    if "set ds2 \<subseteq> inside w h" "putmines n (new_world w h n) ds2 = Some (g, ds')" for ds2 g ds'
  proof -
    have "set ds2 \<subseteq> inside (xsize (new_world w h n)) (ysize (new_world w h n))"
      using that(1) dims by simp
    from putmines_iter_result[OF fw(1) this, of "nat n" g ds'] that(2) fw(2) dims
    show ?thesis by (simp add: putmines_def length_py_range)
  qed
  have "n \<le> int (card (set ds))" using assms(1,4) by linarith
  from new_Board_total[OF assms(3) this]
  obtain b ds' where b: "new_Board w h n ds = Some (b, ds')" by blast
  have "set ds \<subseteq> inside (xsize (new_world w h n)) (ysize (new_world w h n))"
    using assms(3) dims by simp
  from putmines_iter_total[OF fw(1) this, of "nat n"] assms(4) fw(2)
  obtain g ds'' where g: "putmines n (new_world w h n) ds = Some (g, ds'')"
    by (auto simp: putmines_def length_py_range)
  from part[OF assms(3) b] partm[OF assms(3) g] b g part partm show ?thesis by blast
qed

theorem mines_placed_witness:
  "(0 :: int) \<le> 1 \<and> (1 :: int) < 2 * 1 \<and> set [(0, 0)] \<subseteq> inside 2 1 \<and> nat 1 \<le> card (set [(0 :: int, 0 :: int)])
   \<and> (\<exists>b ds'. new_Board 2 1 1 [(0, 0)] = Some (b, ds') \<and> card (mine_set b) = 1)
   \<and> (\<exists>g ds'. putmines 1 (new_world 2 1 1) [(0, 0)] = Some (g, ds') \<and> card (star_set g) = 1)"
proof -
  have h1: "(0 :: int) \<le> 1" and h2: "(1 :: int) < 2 * 1" by simp_all
  have h3: "set [(0, 0)] \<subseteq> inside 2 1" by (simp add: inb_def)
  have h4: "nat 1 \<le> card (set [(0 :: int, 0 :: int)])" by simp
  from mines_placed[OF h1 h2 h3 h4]
  have "(\<exists>b ds'. new_Board 2 1 1 [(0, 0)] = Some (b, ds') \<and> card (mine_set b) = 1)
      \<and> (\<exists>g ds'. putmines 1 (new_world 2 1 1) [(0, 0)] = Some (g, ds') \<and> card (star_set g) = 1)"
    by simp blast
  with h3 show ?thesis by simp
qed

section \<open>The adjacent counts\<close>

lemma offsets_count_int:
  "(\<Sum>d\<in>set offsets. if Q (x + fst d, y + snd d) then 1 else (0 :: int))
     = int (card {c. \<bar>fst c - x\<bar> \<le> 1 \<and> \<bar>snd c - y\<bar> \<le> 1 \<and> Q c})"
proof -
  have "(\<Sum>d\<in>set offsets. if Q (x + fst d, y + snd d) then 1 else (0 :: int))
      = int (\<Sum>d\<in>set offsets. if Q (x + fst d, y + snd d) then 1 else 0)"
    by (simp add: of_nat_sum if_distrib cong: if_cong)
  then show ?thesis by (simp only: offsets_count)
qed

lemma calccell_count:
  "fold (\<lambda>dx. fold (\<lambda>dy cnt.
       if x + dx \<ge> 0 \<and> y + dy \<ge> 0 \<and> x + dx < xsize g \<and> y + dy < ysize g
       then cnt + (if cell_at (vvram g) (x + dx) (y + dy) = VStr ''*'' then 1 else 0)
       else cnt) [-1, 0, 1]) [-1, 0, 1] (0 :: int)
   = int (card {c. \<bar>fst c - x\<bar> \<le> 1 \<and> \<bar>snd c - y\<bar> \<le> 1 \<and> c \<in> star_set g})"
proof -
  let ?f = "\<lambda>dx dy. if (x + dx, y + dy) \<in> star_set g then 1 else (0 :: int)"
  have body: "(\<lambda>dy cnt. if x + dx \<ge> 0 \<and> y + dy \<ge> 0 \<and> x + dx < xsize g \<and> y + dy < ysize g
       then cnt + (if cell_at (vvram g) (x + dx) (y + dy) = VStr ''*'' then 1 else 0)
       else cnt) = (\<lambda>dy cnt. cnt + ?f dx dy)" for dx
    by (intro ext) (auto simp: star_set_def inb_def)
  have "fold (\<lambda>dx. fold (\<lambda>dy cnt.
       if x + dx \<ge> 0 \<and> y + dy \<ge> 0 \<and> x + dx < xsize g \<and> y + dy < ysize g
       then cnt + (if cell_at (vvram g) (x + dx) (y + dy) = VStr ''*'' then 1 else 0)
       else cnt) [-1, 0, 1]) [-1, 0, 1] (0 :: int)
     = fold (\<lambda>dx c. c + sum_list (map (?f dx) [-1, 0, 1])) [-1, 0, 1] 0"
    unfolding body fold_add_int[abs_def] ..
  also have "\<dots> = sum_list (map (\<lambda>dx. sum_list (map (?f dx) [-1, 0, 1])) [-1, 0, 1])"
    unfolding fold_add_int by simp
  also have "\<dots> = sum_list (map (\<lambda>d. ?f (fst d) (snd d)) offsets)"
    by (simp add: offsets_def)
  also have "\<dots> = (\<Sum>d\<in>set offsets. ?f (fst d) (snd d))"
    by (rule sum_list_distinct_conv_sum_set[OF distinct_offsets])
  also have "\<dots> = int (card {c. \<bar>fst c - x\<bar> \<le> 1 \<and> \<bar>snd c - y\<bar> \<le> 1 \<and> c \<in> star_set g})"
    by (rule offsets_count_int)
  finally show ?thesis .
qed

lemma star_neighbours:
  assumes "(x, y) \<notin> star_set g"
  shows "{c. \<bar>fst c - x\<bar> \<le> 1 \<and> \<bar>snd c - y\<bar> \<le> 1 \<and> c \<in> star_set g}
       = neighbours (xsize g) (ysize g) x y \<inter> star_set g"
  using assms by (auto simp: neighbours_def star_set_def)

lemma calccell_eq:
  "calccell g x y =
     (if cell_at (vvram g) x y = VInt 0
      then g\<lparr>vvram := update_at (vvram g) x y
             (\<lambda>_. VInt (int (card (neighbours (xsize g) (ysize g) x y \<inter> star_set g))))\<rparr>
      else g)"
proof (cases "cell_at (vvram g) x y = VInt 0")
  case True
  then have "(x, y) \<notin> star_set g" by (simp add: star_set_def)
  from star_neighbours[OF this] True show ?thesis
    by (simp only: calccell_def calccell_count Let_def if_True)
next
  case False
  then show ?thesis by (simp add: calccell_def)
qed

lemma calcfield_result:
  assumes wf: "wf_grid (xsize g0) (ysize g0) (vvram g0)"
  shows "xsize (calcfield g0) = xsize g0 \<and> ysize (calcfield g0) = ysize g0
       \<and> nmines (calcfield g0) = nmines g0 \<and> mask (calcfield g0) = mask g0
       \<and> star_set (calcfield g0) = star_set g0
       \<and> wf_grid (xsize g0) (ysize g0) (vvram (calcfield g0))
       \<and> (\<forall>p q. inb (xsize g0) (ysize g0) p q \<longrightarrow>
            cell_at (vvram (calcfield g0)) p q
              = (if cell_at (vvram g0) p q = VInt 0
                 then VInt (int (card (neighbours (xsize g0) (ysize g0) p q \<inter> star_set g0)))
                 else cell_at (vvram g0) p q))"
proof -
  let ?I = "\<lambda>g. xsize g = xsize g0 \<and> ysize g = ysize g0 \<and> nmines g = nmines g0
      \<and> mask g = mask g0 \<and> star_set g = star_set g0"
  let ?stp = "\<lambda>x y g. calccell g x y"
  let ?upd = "\<lambda>p q v. if v = VInt 0
      then VInt (int (card (neighbours (xsize g0) (ysize g0) p q \<inter> star_set g0))) else v"
  have stp: "?I (?stp x y s) \<and> vvram (?stp x y s) = update_at (vvram s) x y (?upd x y)"
    if I: "?I s" and wfs: "wf_grid (xsize g0) (ysize g0) (vvram s)"
      and ib: "inb (xsize g0) (ysize g0) x y" for s x y
  proof (cases "cell_at (vvram s) x y = VInt 0")
    case False
    then have "update_at (vvram s) x y (?upd x y) = vvram s" by (intro update_at_id) simp
    with False I show ?thesis by (simp add: calccell_eq)
  next
    case True
    let ?v = "VInt (int (card (neighbours (xsize g0) (ysize g0) x y \<inter> star_set g0)))"
    let ?s1 = "s\<lparr>vvram := update_at (vvram s) x y (\<lambda>_. ?v)\<rparr>"
    have c: "calccell s x y = ?s1" using True I by (simp add: calccell_eq)
    have g: "update_at (vvram s) x y (\<lambda>_. ?v) = update_at (vvram s) x y (?upd x y)"
      using True by (intro update_at_cong) simp
    have wfs': "wf_grid (xsize s) (ysize s) (vvram s)" using wfs I by simp
    have ib': "inb (xsize s) (ysize s) x y" using ib I by simp
    have "star_set ?s1 = star_set s"
      using cell_at_update[OF wfs' ib'] True
      by (auto simp: star_set_def inside_def split: if_splits)
    with I c g show ?thesis by simp
  qed
  have I0: "?I g0" by simp
  note r = grid_loop_all[of ?I "xsize g0" "ysize g0" vvram ?stp ?upd g0, OF stp I0 wf]
  have eq: "calcfield g0
      = fold (\<lambda>x. fold (?stp x) (py_range (ysize g0))) (py_range (xsize g0)) g0"
    by (simp add: calcfield_def)
  from r show ?thesis unfolding eq by blast
qed

lemma star_set_neighbours:
  "{c \<in> neighbours (xsize g) (ysize g) x y. cell_at (vvram g) (fst c) (snd c) = VStr ''*''}
     = neighbours (xsize g) (ysize g) x y \<inter> star_set g"
  using neighbours_inside[of "xsize g" "ysize g" x y] by (auto simp: star_set_def)

lemma calcfield_fresh:
  assumes "fresh_field g" "inb (xsize g) (ysize g) x y"
    and "cell_at (vvram (calcfield g)) x y \<noteq> VStr ''*''"
  shows "cell_at (vvram (calcfield g)) x y
     = VInt (int (card {c \<in> neighbours (xsize g) (ysize g) x y.
                        cell_at (vvram (calcfield g)) (fst c) (snd c) = VStr ''*''}))"
proof -
  have wf: "wf_grid (xsize g) (ysize g) (vvram g)" using assms(1) by (simp add: fresh_field_def)
  note r = calcfield_result[OF wf]
  have c: "cell_at (vvram (calcfield g)) x y
      = (if cell_at (vvram g) x y = VInt 0
         then VInt (int (card (neighbours (xsize g) (ysize g) x y \<inter> star_set g)))
         else cell_at (vvram g) x y)"
    using r assms(2) by blast
  have z: "cell_at (vvram g) x y = VInt 0"
    using fresh_field_cell[OF assms(1,2)] c assms(3) by auto
  have "{c \<in> neighbours (xsize g) (ysize g) x y. cell_at (vvram (calcfield g)) (fst c) (snd c) = VStr ''*''}
      = neighbours (xsize g) (ysize g) x y \<inter> star_set g"
    using star_set_neighbours[of "calcfield g" x y] r by simp
  with c z show ?thesis by simp
qed

text \<open>
  C4. After construction, in both programs, the count stored for a cell of the grid that
  is not a mine is the number of mines among its \<open>neighbours\<close>: the cells of the grid,
  other than the cell itself, whose two coordinates each differ from its own by at
  most one. Cells outside the grid are never counted, so nothing wraps around. The
  draws are cells of the grid, as \<^verbatim>\<open>random.randint\<close> gives them.
\<close>

theorem adjacent_counts:
  assumes "set ds \<subseteq> inside w h" and "new_Board w h n ds = Some (b, ds')"
    and "set ds2 \<subseteq> inside w h" and "putmines n (new_world w h n) ds2 = Some (g, ds2')"
    and "inb w h x y"
  shows "(\<not> mine (cell_at (grid b) x y) \<longrightarrow>
            adjacent (cell_at (grid b) x y)
              = card {c \<in> neighbours w h x y. mine (cell_at (grid b) (fst c) (snd c))})
       \<and> (cell_at (vvram (calcfield g)) x y \<noteq> VStr ''*'' \<longrightarrow>
            cell_at (vvram (calcfield g)) x y
              = VInt (int (card {c \<in> neighbours w h x y.
                                 cell_at (vvram (calcfield g)) (fst c) (snd c) = VStr ''*''})))"
proof -
  have 1: "\<not> mine (cell_at (grid b) x y) \<longrightarrow>
            adjacent (cell_at (grid b) x y)
              = card {c \<in> neighbours w h x y. mine (cell_at (grid b) (fst c) (snd c))}"
    using new_Board_result[OF assms(2,1)] assms(5) by blast
  have fw: "fresh_field (new_world w h n)" using fresh_new_world[of w h n] by simp
  have dims: "xsize (new_world w h n) = w" "ysize (new_world w h n) = h"
    by (simp_all add: new_world_def)
  have "set ds2 \<subseteq> inside (xsize (new_world w h n)) (ysize (new_world w h n))"
    using assms(3) dims by simp
  from putmines_iter_result[OF fw this, of "nat n" g ds2'] assms(4) dims
  have g: "fresh_field g" "xsize g = w" "ysize g = h"
    by (simp_all add: putmines_def length_py_range)
  have ib: "inb (xsize g) (ysize g) x y" using assms(5) g by simp
  have 2: "cell_at (vvram (calcfield g)) x y \<noteq> VStr ''*'' \<longrightarrow>
            cell_at (vvram (calcfield g)) x y
              = VInt (int (card {c \<in> neighbours w h x y.
                                 cell_at (vvram (calcfield g)) (fst c) (snd c) = VStr ''*''}))"
    using calcfield_fresh[OF g(1) ib] g(2,3) by simp
  from 1 2 show ?thesis by blast
qed

theorem adjacent_counts_witness:
  "\<exists>b ds' g ds2'. set [(0, 0)] \<subseteq> inside 2 1
     \<and> new_Board 2 1 1 [(0, 0)] = Some (b, ds')
     \<and> putmines 1 (new_world 2 1 1) [(0, 0)] = Some (g, ds2')
     \<and> inb 2 1 1 0
     \<and> (\<not> mine (cell_at (grid b) 1 0) \<longrightarrow>
            adjacent (cell_at (grid b) 1 0)
              = card {c \<in> neighbours 2 1 1 0. mine (cell_at (grid b) (fst c) (snd c))})
     \<and> (cell_at (vvram (calcfield g)) 1 0 \<noteq> VStr ''*'' \<longrightarrow>
            cell_at (vvram (calcfield g)) 1 0
              = VInt (int (card {c \<in> neighbours 2 1 1 0.
                                 cell_at (vvram (calcfield g)) (fst c) (snd c) = VStr ''*''})))"
proof -
  have h1: "set [(0, 0)] \<subseteq> inside 2 1" by (simp add: inb_def)
  have h5: "inb 2 1 1 0" by (simp add: inb_def)
  have "(1 :: int) \<le> int (card (set [(0 :: int, 0 :: int)]))" by simp
  from new_Board_total[OF h1 this]
  obtain b ds' where b: "new_Board 2 1 1 [(0, 0)] = Some (b, ds')" by blast
  have fw: "fresh_field (new_world 2 1 1)" "star_set (new_world 2 1 1) = {}"
    using fresh_new_world[of 2 1 1] by simp_all
  have "set [(0, 0)] \<subseteq> inside (xsize (new_world 2 1 1)) (ysize (new_world 2 1 1))"
    using h1 by (simp add: new_world_def)
  from putmines_iter_total[OF fw(1) this, of 1] fw(2)
  obtain g ds2' where g: "putmines 1 (new_world 2 1 1) [(0, 0)] = Some (g, ds2')"
    by (auto simp: putmines_def length_py_range)
  from adjacent_counts[OF h1 b h1 g h5] h1 b g h5 show ?thesis by blast
qed

section \<open>The check of the mine count\<close>

text \<open>
  C6, as the code has it. In both programs an argument that denotes a number above 300
  makes the process print its complaint and exit with status 1, whatever the draws and
  the keys would have been: no board is built. Since 300 is below the number of cells
  of either grid, this covers every mine count that is not below \<open>width * height\<close>.
\<close>

theorem too_many_mines:
  assumes "py_int a = Some count" and "300 < count"
  shows "run py_int [prog, a] ds keys = Some ([''too many nyankos''], Inl (SystemExit 1))
       \<and> script py_int [prog, a] ds keys = Some ([''too many mines''], Inl (SystemExit 1))
       \<and> exit_status (Inl (SystemExit 1)) = 1
       \<and> 300 < XSIZE * BOARD_HEIGHT \<and> (300 :: int) < 40 * 23"
  using assms
  by (simp add: run_def get_mine_count_def script_def MAX_MINES_def XSIZE_def BOARD_HEIGHT_def)

theorem too_many_mines_witness:
  "(\<lambda>s. if s = ''900'' then Some 900 else None) ''900'' = Some (900 :: int) \<and> (300 :: int) < 900
   \<and> run (\<lambda>s. if s = ''900'' then Some 900 else None) [''sweeper.py'', ''900''] [] []
       = Some ([''too many nyankos''], Inl (SystemExit 1))
   \<and> script (\<lambda>s. if s = ''900'' then Some 900 else None) [''sweeper.py'', ''900''] [] []
       = Some ([''too many mines''], Inl (SystemExit 1))"
proof -
  have h1: "(\<lambda>s. if s = ''900'' then Some 900 else None) ''900'' = Some (900 :: int)" by simp
  have h2: "(300 :: int) < 900" by simp
  note t = too_many_mines[where py_int = "\<lambda>s. if s = ''900'' then Some 900 else None"
      and a = "''900''" and count = 900 and prog = "''sweeper.py''" and ds = "[]" and keys = "[]", OF h1 h2]
  from t h1 h2 show ?thesis by blast
qed

section \<open>Steps of the two game loops\<close>

lemma Game_run_step:
  assumes "\<not> (\<not> game_over (state g) \<and> Board_all_clear (board (state g)))"
  shows "Game_run g (key # ks) =
     (case Game_handle_key g key ks of
        None \<Rightarrow> None
      | Some (Inl e) \<Rightarrow> Some (Inl e)
      | Some (Inr (continue, g', ks')) \<Rightarrow>
          if \<not> continue then Some (Inr (1, g', ks')) else Game_run g' ks')"
  using assms by (subst Game_run.simps) auto

lemma KEY_BINDINGS_other [simp]:
  "KEY_BINDINGS ''q'' = None" "KEY_BINDINGS '' '' = None" "KEY_BINDINGS ''z'' = None"
  "KEY_BINDINGS ''a'' = None" "KEY_BINDINGS ''4'' = Some LEFT"
  by (simp_all add: KEY_BINDINGS_def)

lemma Game_run_quit:
  assumes "\<not> (\<not> game_over (state g) \<and> Board_all_clear (board (state g)))"
  shows "Game_run g (''q'' # ks) = Some (Inr (1, g, ks))"
  by (simp add: Game_run_step[OF assms] Game_handle_key_def)

lemma Game_handle_reveal_mine:
  assumes "mine (cell_at (grid (board (state g))) (cursor_x (state g)) (cursor_y (state g)))"
  shows "Game_handle_reveal g (k # ks) =
     Some (Inr (g\<lparr>state := (state g)\<lparr>game_over := True,
                                      board := Game_reveal_all True (board (state g))\<rparr>,
                  status_row := status_row g @ [''You lose. hit key'']\<rparr>, ks))"
  using assms by (simp add: Game_handle_reveal_def)

lemma Game_run_lose:
  assumes "\<not> (\<not> game_over (state g) \<and> Board_all_clear (board (state g)))"
    and "mine (cell_at (grid (board (state g))) (cursor_x (state g)) (cursor_y (state g)))"
  shows "Game_run g ('' '' # k # ks) =
     Game_run (g\<lparr>state := (state g)\<lparr>game_over := True,
                                     board := Game_reveal_all True (board (state g))\<rparr>,
                 status_row := status_row g @ [''You lose. hit key'']\<rparr>) ks"
  by (simp add: Game_run_step[OF assms(1)] Game_handle_key_def Game_handle_reveal_mine[OF assms(2)])

lemma Game_run_left:
  assumes "\<not> (\<not> game_over (state g) \<and> Board_all_clear (board (state g)))"
  shows "Game_run g (''4'' # ks) =
     Game_run (g\<lparr>state := (state g)\<lparr>
        cursor_x := max 0 (min (width (board (state g)) - 1) (cursor_x (state g) + - 1)),
        cursor_y := max 0 (min (height (board (state g)) - 1) (cursor_y (state g) + 0))\<rparr>\<rparr>) ks"
  by (simp add: Game_run_step[OF assms] Game_handle_key_def Let_def)

lemma mainloop_from_lose:
  assumes "\<not> endcheck g" "cell_at (vvram g) x y = VStr ''*''"
  shows "mainloop_from g x y ('' '' # k # ks) = Some (Inr (- 1, g, [''You lose. hit key''], ks))"
  using assms by (simp add: getkey_def)

lemma mainloop_from_quit:
  assumes "\<not> endcheck g"
  shows "mainloop_from g x y (''q'' # ks) = Some (Inr (1, g, [], ks))"
  using assms by (simp add: getkey_def)

lemma fresh_not_clear:
  assumes "new_Board w h n ds = Some (b, ds')" "set ds \<subseteq> inside w h" "n < w * h" "0 < w" "0 < h"
  shows "\<not> Board_all_clear b"
proof
  assume ac: "Board_all_clear b"
  note r = new_Board_result[OF assms(1,2)]
  have d: "width b = w" "height b = h" and wf: "wf_Board b" using r by simp_all
  have "int (card (mine_set b)) < int (card (inside w h))"
    using r assms(3,4,5) by (simp add: card_inside nat_mult_distrib)
  then have "card (mine_set b) < card (inside w h)" by simp
  moreover have "mine_set b \<subseteq> inside w h" using d by (auto simp: mine_set_def)
  ultimately obtain c where c: "c \<in> inside w h" "c \<notin> mine_set b"
    by (metis subsetI subset_antisym less_irrefl)
  then have ib: "inb w h (fst c) (snd c)" and nm: "\<not> mine (cell_at (grid b) (fst c) (snd c))"
    using d by (simp_all add: inside_def mine_set_def)
  from r ib have "\<not> revealed (cell_at (grid b) (fst c) (snd c))" by blast
  moreover from Board_all_clear_iff[OF wf] ac ib nm d
  have "revealed (cell_at (grid b) (fst c) (snd c))" by simp
  ultimately show False by simp
qed

lemma covered_new_world: "covered_set (calcfield (new_world w h n)) = inside w h"
proof -
  have wf: "wf_grid (xsize (new_world w h n)) (ysize (new_world w h n)) (vvram (new_world w h n))"
    by (simp add: new_world_def wf_new_grid)
  from calcfield_result[OF wf]
  have "xsize (calcfield (new_world w h n)) = w" "ysize (calcfield (new_world w h n)) = h"
    "mask (calcfield (new_world w h n)) = new_grid w h (CHR ''#'')"
    by (simp_all add: new_world_def)
  then show ?thesis
    by (auto simp: covered_set_def inside_def cell_at_new_grid)
qed

section \<open>Runs that end with a quit\<close>

lemma new_Game_quit:
  assumes "new_Board w h n ds = Some (b, ds')" "set ds \<subseteq> inside w h" "n < w * h" "0 < w" "0 < h"
  shows "new_Game w h n ds = Some (\<lparr>state = new_GameState b, status_row = []\<rparr>, ds')
       \<and> Game_run \<lparr>state = new_GameState b, status_row = []\<rparr> (''q'' # ks)
           = Some (Inr (1, \<lparr>state = new_GameState b, status_row = []\<rparr>, ks))"
proof -
  have "\<not> Board_all_clear b" using assms by (rule fresh_not_clear)
  then have "\<not> (\<not> game_over (state \<lparr>state = new_GameState b, status_row = []\<rparr>)
      \<and> Board_all_clear (board (state \<lparr>state = new_GameState b, status_row = []\<rparr>)))"
    by (simp add: new_GameState_def)
  from Game_run_quit[OF this] assms(1) show ?thesis by (simp add: new_Game_def)
qed

lemma new_Board_no_draws:
  "n \<le> 0 \<Longrightarrow> new_Board w h n [] = Some (Board_calculate_adjacents
     \<lparr>width = w, height = h, mines = n, grid = new_grid w h new_Cell\<rparr>, [])"
  by (simp add: new_Board_def Board_place_mines_def)

lemma run_quit_no_mines:
  assumes "py_int a = Some n" "n \<le> 0"
  shows "run py_int [prog, a] [] [''q''] = Some ([], Inr ())"
proof -
  let ?b = "Board_calculate_adjacents
     \<lparr>width = XSIZE, height = BOARD_HEIGHT, mines = n, grid = new_grid XSIZE BOARD_HEIGHT new_Cell\<rparr>"
  have nb: "new_Board XSIZE BOARD_HEIGHT n [] = Some (?b, [])"
    using assms(2) by (rule new_Board_no_draws)
  have "n < XSIZE * BOARD_HEIGHT" "0 < XSIZE" "0 < BOARD_HEIGHT"
    using assms(2) by (simp_all add: XSIZE_def BOARD_HEIGHT_def)
  from new_Game_quit[OF nb _ this, of "[]"] assms show ?thesis
    by (simp add: run_def get_mine_count_def MAX_MINES_def)
qed

text \<open>
  C6 fails for a negative mine count: with the argument \<^verbatim>\<open>-1\<close> nyankosweeper prints
  nothing, builds its board and plays; the key \<^verbatim>\<open>q\<close> then ends the run normally.
\<close>

theorem negative_mine_count_counterexample:
  "run (\<lambda>s. if s = ''-1'' then Some (- 1) else None) [''nyankosweeper.py'', ''-1''] [] [''q'']
     = Some ([], Inr ())"
  by (rule run_quit_no_mines[where n = "- 1"]) simp_all

lemma not_endcheck_new_world:
  assumes "n \<noteq> w * h" "0 \<le> w" "0 \<le> h"
  shows "\<not> endcheck (calcfield (new_world w h n))"
proof -
  have wf: "wf_grid (xsize (new_world w h n)) (ysize (new_world w h n)) (vvram (new_world w h n))"
    by (simp add: new_world_def wf_new_grid)
  from calcfield_result[OF wf] have "nmines (calcfield (new_world w h n)) = n"
    by (simp add: new_world_def)
  moreover have "int (card (covered_set (calcfield (new_world w h n)))) = w * h"
    using assms(2,3) by (simp add: covered_new_world card_inside)
  ultimately show ?thesis using assms(1) by (simp add: endcheck_iff)
qed

lemma script_quit_no_mines:
  assumes "py_int a = Some 0"
  shows "script py_int [prog, a] [] [''q''] = Some ([], Inr ())
       \<and> mainloop (calcfield (new_world 40 23 0)) [''q'']
           = Some (Inr (1, calcfield (new_world 40 23 0), [], []))"
proof -
  have ne: "\<not> endcheck (calcfield (new_world 40 23 0))"
    by (rule not_endcheck_new_world) simp_all
  have m: "mainloop (calcfield (new_world 40 23 0)) [''q'']
           = Some (Inr (1, calcfield (new_world 40 23 0), [], []))"
    unfolding mainloop_def by (rule mainloop_from_quit[OF ne])
  have p: "putmines 0 (new_world 40 23 0) [] = Some (new_world 40 23 0, [])"
    by (simp add: putmines_def py_range_def)
  have n: "nmines (new_world 40 23 0) = 0" by (simp add: new_world_def)
  from m p n assms show ?thesis by (simp add: script_def game_def)
qed

text \<open>
  C9 at an input where both programs depart from it. Started with the argument \<^verbatim>\<open>0\<close> and
  given the key \<^verbatim>\<open>q\<close>, \<^verbatim>\<open>Game.run\<close> and \<^verbatim>\<open>mainloop\<close> return 1, the code of a quit; but
  \<^verbatim>\<open>run\<close> and \<^verbatim>\<open>game\<close> drop that value, the scripts run to their end, and the exit status
  of the process is 0, the status of a win.
\<close>

theorem exit_status_after_quit:
  "run (\<lambda>s. if s = ''0'' then Some 0 else None) [''nyankosweeper.py'', ''0''] [] [''q'']
     = Some ([], Inr ())
   \<and> script (\<lambda>s. if s = ''0'' then Some 0 else None) [''minesweeper.py'', ''0''] [] [''q'']
     = Some ([], Inr ())
   \<and> exit_status (Inr ()) = 0
   \<and> (\<exists>g. new_Game XSIZE BOARD_HEIGHT 0 [] = Some (g, []) \<and> Game_run g [''q''] = Some (Inr (1, g, [])))
   \<and> mainloop (calcfield (new_world 40 23 0)) [''q'']
     = Some (Inr (1, calcfield (new_world 40 23 0), [], []))"
proof -
  let ?P = "\<lambda>s. if s = ''0'' then Some (0 :: int) else None"
  have 1: "run ?P [''nyankosweeper.py'', ''0''] [] [''q''] = Some ([], Inr ())"
    by (rule run_quit_no_mines[where n = 0]) simp_all
  have 2: "script ?P [''minesweeper.py'', ''0''] [] [''q''] = Some ([], Inr ())
      \<and> mainloop (calcfield (new_world 40 23 0)) [''q'']
           = Some (Inr (1, calcfield (new_world 40 23 0), [], []))"
    by (rule script_quit_no_mines) simp
  have nb: "new_Board XSIZE BOARD_HEIGHT 0 [] = Some (Board_calculate_adjacents
     \<lparr>width = XSIZE, height = BOARD_HEIGHT, mines = 0, grid = new_grid XSIZE BOARD_HEIGHT new_Cell\<rparr>, [])"
    by (rule new_Board_no_draws) simp
  have "(0 :: int) < XSIZE * BOARD_HEIGHT" "0 < XSIZE" "0 < BOARD_HEIGHT"
    by (simp_all add: XSIZE_def BOARD_HEIGHT_def)
  from new_Game_quit[OF nb _ this, of "[]"]
  have 3: "\<exists>g. new_Game XSIZE BOARD_HEIGHT 0 [] = Some (g, []) \<and> Game_run g [''q''] = Some (Inr (1, g, []))"
    by auto
  from 1 2 3 show ?thesis by simp
qed

section \<open>After a loss\<close>

lemma place_mines_loop_mono:
  assumes "wf_grid (width b) (height b) (grid b)" "set ds \<subseteq> inside (width b) (height b)"
    and "place_mines_loop b placed ds = Some (b', ds')"
  shows "mine_set b \<subseteq> mine_set b'"
  using assms
proof (induction b placed ds rule: place_mines_loop.induct)
  case (1 b placed)
  then show ?case by (simp split: if_splits)
next
  case (2 b placed x y ds)
  have ib: "inb (width b) (height b) x y" using "2.prems"(2) by simp
  show ?case
  proof (cases "placed < mines b")
    case False
    with "2.prems" show ?thesis by simp
  next
    case True
    show ?thesis
    proof (cases "mine (cell_at (grid b) x y)")
      case m: True
      with True "2.prems" have "place_mines_loop b placed ds = Some (b', ds')" by simp
      from "2.IH"(2)[OF True _ "2.prems"(1) _ this] m "2.prems"(2) show ?thesis by simp
    next
      case False
      let ?b1 = "b\<lparr>grid := update_at (grid b) x y (\<lambda>c. c\<lparr>mine := True\<rparr>)\<rparr>"
      from False True "2.prems" have r: "place_mines_loop ?b1 (placed + 1) ds = Some (b', ds')" by simp
      have wf1: "wf_grid (width ?b1) (height ?b1) (grid ?b1)" using "2.prems"(1) by simp
      have sub: "set ds \<subseteq> inside (width ?b1) (height ?b1)" using "2.prems"(2) by simp
      from "2.IH"(1)[OF True _ wf1 sub r] False place_mine_set[OF "2.prems"(1) ib]
      show ?thesis by auto
    qed
  qed
qed

lemma new_Board_first_draw:
  assumes "new_Board w h n ((x, y) # ds) = Some (b, ds')" "set ((x, y) # ds) \<subseteq> inside w h" "0 < n"
  shows "mine (cell_at (grid b) x y)"
proof -
  let ?b0 = "\<lparr>width = w, height = h, mines = n, grid = new_grid w h new_Cell\<rparr>"
  let ?b1 = "?b0\<lparr>grid := update_at (grid ?b0) x y (\<lambda>c. c\<lparr>mine := True\<rparr>)\<rparr>"
  have ib: "inb w h x y" using assms(2) by simp
  have nm: "\<not> mine (cell_at (grid ?b0) x y)" using ib by (simp add: cell_at_new_grid new_Cell_def)
  from assms(1) obtain b1 where b1: "place_mines_loop ?b0 0 ((x, y) # ds) = Some (b1, ds')"
    and b: "b = Board_calculate_adjacents b1"
    by (auto simp: new_Board_def Board_place_mines_def split: option.splits)
  from b1 nm assms(3) have r: "place_mines_loop ?b1 1 ds = Some (b1, ds')" by simp
  have wf0: "wf_grid (width ?b0) (height ?b0) (grid ?b0)" by (simp add: wf_new_grid)
  have ib0: "inb (width ?b0) (height ?b0) x y" using ib by simp
  have wf1: "wf_grid (width ?b1) (height ?b1) (grid ?b1)" using wf0 by simp
  have sub: "set ds \<subseteq> inside (width ?b1) (height ?b1)" using assms(2) by simp
  have "(x, y) \<in> mine_set ?b1" using place_mine_set[OF wf0 ib0] by simp
  with place_mines_loop_mono[OF wf1 sub r] have in1: "(x, y) \<in> mine_set b1" by blast
  have d0: "width ?b0 = w" "height ?b0 = h" by simp_all
  note p = place_mines_loop_result[OF wf0 _ b1]
  have "set ((x, y) # ds) \<subseteq> inside (width ?b0) (height ?b0)" using assms(2) by simp
  from p[OF this] have wfb1: "wf_grid (width b1) (height b1) (grid b1)" by simp
  from Board_calculate_adjacents_result[OF wfb1] b in1
  have "(x, y) \<in> mine_set b" by simp
  then show ?thesis by (simp add: mine_set_def)
qed

lemma Game_reveal_all_dims:
  assumes wf: "wf_grid (width b0) (height b0) (grid b0)"
  shows "width (Game_reveal_all sm b0) = width b0 \<and> height (Game_reveal_all sm b0) = height b0"
proof -
  let ?I = "\<lambda>b. width b = width b0 \<and> height b = height b0"
  let ?upd = "\<lambda>(p :: int) (q :: int) (c :: Cell).
      if sm then (if mine c then (if mark c \<noteq> 1 then c\<lparr>revealed := True\<rparr> else c)
                  else c\<lparr>revealed := True\<rparr>)
      else c\<lparr>revealed := True\<rparr>"
  let ?stp = "\<lambda>x y b.
            (let cell = cell_at (grid b) x y in
             if sm then
               (if mine cell then
                  (if mark cell \<noteq> 1 then b\<lparr>grid := update_at (grid b) x y (\<lambda>c. c\<lparr>revealed := True\<rparr>)\<rparr> else b)
                else b\<lparr>grid := update_at (grid b) x y (\<lambda>c. c\<lparr>revealed := True\<rparr>)\<rparr>)
             else b\<lparr>grid := update_at (grid b) x y (\<lambda>c. c\<lparr>revealed := True\<rparr>)\<rparr>)"
  have stp: "?I (?stp x y s) \<and> grid (?stp x y s) = update_at (grid s) x y (?upd x y)"
    if I: "?I s" for s x y
  proof -
    have id: "update_at (grid s) x y (?upd x y) = grid s"
      if "sm" "mine (cell_at (grid s) x y)" "mark (cell_at (grid s) x y) = 1"
      using that by (intro update_at_id) simp
    have up: "update_at (grid s) x y (\<lambda>c. c\<lparr>revealed := True\<rparr>) = update_at (grid s) x y (?upd x y)"
      if "\<not> (sm \<and> mine (cell_at (grid s) x y) \<and> mark (cell_at (grid s) x y) = 1)"
      using that by (intro update_at_cong) auto
    show ?thesis
    proof (cases "sm \<and> mine (cell_at (grid s) x y) \<and> mark (cell_at (grid s) x y) = 1")
      case True
      then have "?stp x y s = s" by (simp add: Let_def)
      with True id I show ?thesis by simp
    next
      case False
      then have "?stp x y s = s\<lparr>grid := update_at (grid s) x y (\<lambda>c. c\<lparr>revealed := True\<rparr>)\<rparr>"
        by (auto simp: Let_def)
      with up[OF False] I show ?thesis by simp
    qed
  qed
  have I0: "?I b0" by simp
  note r = grid_loop_all[of ?I "width b0" "height b0" grid ?stp ?upd b0, OF stp I0 wf]
  have eq: "Game_reveal_all sm b0
      = fold (\<lambda>x. fold (?stp x) (py_range (height b0))) (py_range (width b0)) b0"
    by (simp add: Game_reveal_all_def)
  from r show ?thesis unfolding eq by blast
qed

text \<open>
  C10, as the code has it. In minesweeper.py the space key on a mine shows the message,
  reads exactly one more key and makes \<^verbatim>\<open>mainloop\<close> return \<open>- 1\<close>; the keys after that are
  never read. In nyankosweeper the space key on a mine sets \<^verbatim>\<open>game_over\<close>, shows the
  message and reads one key; then \<^verbatim>\<open>Game.run\<close> goes on from the lost game exactly as from a
  game in progress, handing every further key to \<^verbatim>\<open>handle_key\<close>, until \<^verbatim>\<open>q\<close> makes it
  return 1.
\<close>

theorem after_a_loss:
  assumes "\<not> endcheck gw" and "cell_at (vvram gw) x y = VStr ''*''"
    and "\<not> game_over (state g)" and "\<not> Board_all_clear (board (state g))"
    and "mine (cell_at (grid (board (state g))) (cursor_x (state g)) (cursor_y (state g)))"
  shows "mainloop_from gw x y ('' '' # k # ks) = Some (Inr (- 1, gw, [''You lose. hit key''], ks))
       \<and> (\<exists>g1. Game_run g ('' '' # k # ks) = Game_run g1 ks
             \<and> game_over (state g1)
             \<and> status_row g1 = status_row g @ [''You lose. hit key'']
             \<and> cursor_x (state g1) = cursor_x (state g) \<and> cursor_y (state g1) = cursor_y (state g)
             \<and> (\<forall>key ks'. Game_run g1 (key # ks') =
                   (case Game_handle_key g1 key ks' of
                      None \<Rightarrow> None
                    | Some (Inl e) \<Rightarrow> Some (Inl e)
                    | Some (Inr (continue, g', ks'')) \<Rightarrow>
                        if \<not> continue then Some (Inr (1, g', ks'')) else Game_run g' ks''))
             \<and> (\<forall>ks'. Game_run g1 (''q'' # ks') = Some (Inr (1, g1, ks'))))"
proof -
  let ?g1 = "g\<lparr>state := (state g)\<lparr>game_over := True,
                                     board := Game_reveal_all True (board (state g))\<rparr>,
                 status_row := status_row g @ [''You lose. hit key'']\<rparr>"
  have n: "\<not> (\<not> game_over (state g) \<and> Board_all_clear (board (state g)))" using assms(4) by simp
  have n1: "\<not> (\<not> game_over (state ?g1) \<and> Board_all_clear (board (state ?g1)))" by simp
  have a: "Game_run g ('' '' # k # ks) = Game_run ?g1 ks" using Game_run_lose[OF n assms(5)] .
  have b: "game_over (state ?g1)" "status_row ?g1 = status_row g @ [''You lose. hit key'']"
    "cursor_x (state ?g1) = cursor_x (state g)" "cursor_y (state ?g1) = cursor_y (state g)"
    by simp_all
  have c: "\<forall>key ks'. Game_run ?g1 (key # ks') =
                   (case Game_handle_key ?g1 key ks' of
                      None \<Rightarrow> None
                    | Some (Inl e) \<Rightarrow> Some (Inl e)
                    | Some (Inr (continue, g', ks'')) \<Rightarrow>
                        if \<not> continue then Some (Inr (1, g', ks'')) else Game_run g' ks'')"
    using Game_run_step[OF n1] by (intro allI)
  have d: "\<forall>ks'. Game_run ?g1 (''q'' # ks') = Some (Inr (1, ?g1, ks'))"
    using Game_run_quit[OF n1] by (intro allI)
  show ?thesis
    apply (rule conjI)
     apply (rule mainloop_from_lose[OF assms(1,2)])
    apply (rule exI[of _ ?g1])
    apply (intro conjI)
          apply (rule a)
         apply (rule b(1))
        apply (rule b(2))
       apply (rule b(3))
      apply (rule b(4))
     apply (rule c)
    apply (rule d)
    done
qed

theorem after_a_loss_witness:
  "\<not> endcheck \<lparr>xsize = 2, ysize = 1, nmines = 1, vvram = [[VStr ''*''], [VInt 1]],
                  mask = [[CHR ''#''], [CHR ''#'']]\<rparr>
   \<and> \<not> Board_all_clear \<lparr>width = 2, height = 1, mines = 1,
         grid = [[new_Cell\<lparr>mine := True\<rparr>], [new_Cell\<lparr>adjacent := 1\<rparr>]]\<rparr>
   \<and> mainloop_from \<lparr>xsize = 2, ysize = 1, nmines = 1, vvram = [[VStr ''*''], [VInt 1]],
                      mask = [[CHR ''#''], [CHR ''#'']]\<rparr> 0 0 ['' '', ''a'', ''4'']
       = Some (Inr (- 1, \<lparr>xsize = 2, ysize = 1, nmines = 1, vvram = [[VStr ''*''], [VInt 1]],
                      mask = [[CHR ''#''], [CHR ''#'']]\<rparr>, [''You lose. hit key''], [''4'']))
   \<and> (\<exists>g1. Game_run \<lparr>state = \<lparr>board = \<lparr>width = 2, height = 1, mines = 1,
                 grid = [[new_Cell\<lparr>mine := True\<rparr>], [new_Cell\<lparr>adjacent := 1\<rparr>]]\<rparr>,
               cursor_x = 0, cursor_y = 0, game_over = False\<rparr>, status_row = []\<rparr> ['' '', ''a'', ''4'']
          = Game_run g1 [''4''] \<and> game_over (state g1))"
proof -
  let ?gw = "\<lparr>xsize = 2, ysize = 1, nmines = 1, vvram = [[VStr ''*''], [VInt 1]],
                  mask = [[CHR ''#''], [CHR ''#'']]\<rparr>"
  let ?b = "\<lparr>width = 2, height = 1, mines = 1,
         grid = [[new_Cell\<lparr>mine := True\<rparr>], [new_Cell\<lparr>adjacent := 1\<rparr>]]\<rparr>"
  let ?g = "\<lparr>state = \<lparr>board = ?b, cursor_x = 0, cursor_y = 0, game_over = False\<rparr>, status_row = []\<rparr>"
  have h1: "\<not> endcheck ?gw"
    by (simp add: endcheck_def py_range_def cell_at_def aca_def numeral_2_eq_2)
  have h2: "cell_at (vvram ?gw) 0 0 = VStr ''*''" by (simp add: cell_at_def)
  have h3: "\<not> game_over (state ?g)" by simp
  have nc: "\<not> Board_all_clear ?b" by (simp add: Board_all_clear_def new_Cell_def)
  then have h4: "\<not> Board_all_clear (board (state ?g))" by simp
  have h5: "mine (cell_at (grid (board (state ?g))) (cursor_x (state ?g)) (cursor_y (state ?g)))"
    by (simp add: cell_at_def)
  note t = after_a_loss[OF h1 h2 h3 h4 h5, of "''a''" "[''4'']"]
  from t have 1: "mainloop_from ?gw 0 0 ['' '', ''a'', ''4'']
       = Some (Inr (- 1, ?gw, [''You lose. hit key''], [''4'']))" by (rule conjunct1)
  from t have "\<exists>g1. Game_run ?g ['' '', ''a'', ''4''] = Game_run g1 [''4''] \<and> game_over (state g1)"
    by (elim conjE exE) (intro exI conjI, assumption+)
  with h1 nc 1 show ?thesis by (intro conjI)
qed

text \<open>
  The claim fails in nyankosweeper: one mine, drawn under the cursor at \<open>(20, 11)\<close>; the
  space key loses the game and the next key is swallowed by the message; the key \<^verbatim>\<open>4\<close>
  that follows still moves the cursor to column 19, and only \<^verbatim>\<open>q\<close> ends the run.
\<close>

theorem moves_after_loss_counterexample:
  "(case new_Game 40 22 1 [(20, 11)] of
      None \<Rightarrow> None
    | Some (g, ds) \<Rightarrow>
        map_option (map_sum id (\<lambda>(r, g', ks). (r, game_over (state g'), cursor_x (state g'), ks)))
          (Game_run g ['' '', ''a'', ''4'', ''q'']))
   = Some (Inr (1, True, 19, []))"
proof -
  have sub: "set [(20, 11)] \<subseteq> inside 40 22" by (simp add: inb_def)
  have "(1 :: int) \<le> int (card (set [(20 :: int, 11 :: int)]))" by simp
  from new_Board_total[OF sub this]
  obtain b ds' where nb: "new_Board 40 22 1 [(20, 11)] = Some (b, ds')" by blast
  note r = new_Board_result[OF nb sub]
  have d: "width b = 40" "height b = 22" using r by blast+
  have "wf_Board b" using r by blast
  then have wf: "wf_grid (width b) (height b) (grid b)" by (rule wf_Board_grid)
  have m: "mine (cell_at (grid b) 20 11)" using new_Board_first_draw[OF nb sub] by simp
  have nc: "\<not> Board_all_clear b" using fresh_not_clear[OF nb sub] by simp
  let ?g = "\<lparr>state = new_GameState b, status_row = []\<rparr>"
  let ?g1 = "?g\<lparr>state := (state ?g)\<lparr>game_over := True,
                                     board := Game_reveal_all True (board (state ?g))\<rparr>,
                 status_row := status_row ?g @ [''You lose. hit key'']\<rparr>"
  let ?g2 = "?g1\<lparr>state := (state ?g1)\<lparr>
        cursor_x := max 0 (min (width (board (state ?g1)) - 1) (cursor_x (state ?g1) + - 1)),
        cursor_y := max 0 (min (height (board (state ?g1)) - 1) (cursor_y (state ?g1) + 0))\<rparr>\<rparr>"
  have ng: "new_Game 40 22 1 [(20, 11)] = Some (?g, ds')" using nb by (simp add: new_Game_def)
  have cur: "cursor_x (state ?g) = 20" "cursor_y (state ?g) = 11" "board (state ?g) = b"
    using d by (simp_all add: new_GameState_def)
  have n0: "\<not> (\<not> game_over (state ?g) \<and> Board_all_clear (board (state ?g)))"
    using nc cur by simp
  have m0: "mine (cell_at (grid (board (state ?g))) (cursor_x (state ?g)) (cursor_y (state ?g)))"
    using m cur by simp
  have n1: "\<not> (\<not> game_over (state ?g1) \<and> Board_all_clear (board (state ?g1)))" by simp
  have n2: "\<not> (\<not> game_over (state ?g2) \<and> Board_all_clear (board (state ?g2)))" by simp
  have s1: "Game_run ?g ['' '', ''a'', ''4'', ''q''] = Game_run ?g1 [''4'', ''q'']"
    by (rule Game_run_lose[OF n0 m0])
  have s2: "Game_run ?g1 [''4'', ''q''] = Game_run ?g2 [''q'']"
    by (rule Game_run_left[OF n1])
  have s3: "Game_run ?g2 [''q''] = Some (Inr (1, ?g2, []))"
    by (rule Game_run_quit[OF n2])
  have w1: "width (board (state ?g1)) = 40"
    using Game_reveal_all_dims[OF wf, of True] d cur by simp
  have c2: "cursor_x (state ?g2) = 19" "game_over (state ?g2)"
    using w1 cur by simp_all
  have "Game_run ?g ['' '', ''a'', ''4'', ''q''] = Some (Inr (1, ?g2, []))"
    using s1 s2 s3 by (rule trans[OF trans])
  then have "map_option (map_sum id (\<lambda>(r, g', ks). (r, game_over (state g'), cursor_x (state g'), ks)))
          (Game_run ?g ['' '', ''a'', ''4'', ''q'']) = Some (Inr (1, True, 19, []))"
    using c2 by (simp del: Game_run.simps)
  then show ?thesis by (simp only: ng option.case prod.case)
qed

section \<open>The zero region revealed by a flood fill\<close>















lemma new_Board_counts_ok:
  assumes "new_Board w h n ds = Some (b, ds')" and "set ds \<subseteq> inside w h"
  shows "counts_ok b"
proof -
  note r = new_Board_result[OF assms]
  from r have w: "width b = w" "height b = h" by simp_all
  from r have a: "\<And>p q. inb w h p q \<Longrightarrow> \<not> mine (cell_at (grid b) p q) \<Longrightarrow>
      adjacent (cell_at (grid b) p q)
        = card {c \<in> neighbours w h p q. mine (cell_at (grid b) (fst c) (snd c))}"
    by blast
  show ?thesis
    unfolding counts_ok_def w
  proof (intro ballI impI)
    fix c assume "c \<in> inside w h" and nm: "\<not> mine (cell_at (grid b) (fst c) (snd c))"
    then have "inb w h (fst c) (snd c)" by (simp add: inside_def)
    from a[OF this nm]
    show "adjacent (cell_at (grid b) (fst c) (snd c))
        = card {c' \<in> neighbours w h (fst c) (snd c). mine (cell_at (grid b) (fst c') (snd c'))}" .
  qed
qed


lemma counts_ok_static:
  assumes s: "same_static b b'" and ok: "counts_ok b"
  shows "counts_ok b'"
proof -
  from s have w: "width b' = width b" "height b' = height b" by (simp_all add: same_static_def)
  from s have e: "\<And>c. c \<in> inside (width b) (height b) \<Longrightarrow>
        mine (cell_at (grid b') (fst c) (snd c)) = mine (cell_at (grid b) (fst c) (snd c))
      \<and> adjacent (cell_at (grid b') (fst c) (snd c)) = adjacent (cell_at (grid b) (fst c) (snd c))"
    unfolding same_static_def by blast
  show ?thesis
    unfolding counts_ok_def w
  proof (intro ballI impI)
    fix c assume c: "c \<in> inside (width b) (height b)"
      and nm: "\<not> mine (cell_at (grid b') (fst c) (snd c))"
    have "{c' \<in> neighbours (width b) (height b) (fst c) (snd c). mine (cell_at (grid b') (fst c') (snd c'))}
        = {c' \<in> neighbours (width b) (height b) (fst c) (snd c). mine (cell_at (grid b) (fst c') (snd c'))}"
      using e neighbours_inside[of "width b" "height b" "fst c" "snd c"] by blast
    moreover from ok c nm e[OF c]
    have "adjacent (cell_at (grid b) (fst c) (snd c))
        = card {c' \<in> neighbours (width b) (height b) (fst c) (snd c). mine (cell_at (grid b) (fst c') (snd c'))}"
      unfolding counts_ok_def by blast
    ultimately show "adjacent (cell_at (grid b') (fst c) (snd c))
        = card {c' \<in> neighbours (width b) (height b) (fst c) (snd c). mine (cell_at (grid b') (fst c') (snd c'))}"
      using e[OF c] by simp
  qed
qed

lemma calcfield_field_ok:
  assumes "fresh_field g"
  shows "field_ok (calcfield g)"
proof -
  have wf: "wf_grid (xsize g) (ysize g) (vvram g)" using assms by (simp add: fresh_field_def)
  from calcfield_result[OF wf]
  have w: "xsize (calcfield g) = xsize g" "ysize (calcfield g) = ysize g" by simp_all
  show ?thesis
    unfolding field_ok_def w
  proof (intro ballI impI)
    fix c assume "c \<in> inside (xsize g) (ysize g)"
      and ns: "cell_at (vvram (calcfield g)) (fst c) (snd c) \<noteq> VStr ''*''"
    then have "inb (xsize g) (ysize g) (fst c) (snd c)" by (simp add: inside_def)
    from calcfield_fresh[OF assms this ns]
    show "cell_at (vvram (calcfield g)) (fst c) (snd c)
        = VInt (int (card {c' \<in> neighbours (xsize g) (ysize g) (fst c) (snd c).
                           cell_at (vvram (calcfield g)) (fst c') (snd c') = VStr ''*''}))" .
  qed
qed

lemma field_ok_same_field: "same_field g g' \<Longrightarrow> field_ok g \<Longrightarrow> field_ok g'"
  by (simp add: same_field_def field_ok_def)






end
